theory Spec2Isabelle
  imports Main "HOL-Library.AList" "HOL-Library.Multiset"
begin

section \<open>Layout extraction (Layout\_detection.py, \<open>detect_layout\<close>)\<close>

text \<open>
  The script reads a PDF through two libraries, collects one result dictionary per page,
  draws rectangles on a second handle of the same file and writes two files. The model
  takes what the libraries return as data and follows the source line by line.

  Numbers that the code only copies or compares for equality (font sizes, coordinates) are
  Python floats; they are values of a type parameter \<open>'n\<close> here, compared with HOL
  equality. Line geometry dictionaries are copied verbatim and stay opaque (\<open>'l\<close>).
  A Python \<open>str\<close> is a \<open>string\<close>.
\<close>

subsection \<open>Library data\<close>

text \<open>An entry of \<open>page.chars\<close>; the code reads the keys text, size, x0, top, x1, bottom.\<close>

record 'n char_rec =
  char_text :: string
  char_size :: 'n
  char_x0 :: 'n
  char_top :: 'n
  char_x1 :: 'n
  char_bottom :: 'n

text \<open>An entry of \<open>page.images\<close>; the code reads the keys x0, top, x1, bottom.\<close>

record 'n image_rec =
  image_x0 :: 'n
  image_top :: 'n
  image_x1 :: 'n
  image_bottom :: 'n

text \<open>\<open>fitz.Rect\<close>: four coordinates. A table found by \<open>find_tables\<close> is its \<open>bbox\<close>.\<close>

type_synonym 'n rect = "'n \<times> 'n \<times> 'n \<times> 'n"

text \<open>
  A pdfplumber page, as the results of the calls of lines 25 to 29 and 90.
  \<open>extract_tables\<close> and \<open>find_tables\<close> are two separate calls, so two fields.
\<close>

record ('n, 'l) page =
  page_extract_text :: string
  page_extract_tables :: "string option list list list"
  page_images :: "'n image_rec list"
  page_lines :: "'l list"
  page_chars :: "'n char_rec list"
  page_find_tables :: "'n rect list"

subsection \<open>String helpers of the Python library\<close>

text \<open>
  \<open>str.isspace\<close> on one character, for the code points a \<open>char\<close> has (0 to 255):
  tab to carriage return, the four separators 28 to 31, space, NEL and no-break space.
\<close>

definition isspace :: "char \<Rightarrow> bool" where
  "isspace c = (of_char c \<in> {9, 10, 11, 12, 13, 28, 29, 30, 31, 32, 133, 160 :: nat})"

text \<open>\<open>s.strip()\<close>: leading and trailing whitespace removed.\<close>

definition strip :: "string \<Rightarrow> string" where
  "strip s = rev (dropWhile isspace (rev (dropWhile isspace s)))"

text \<open>\<open>s.split(sep)\<close> for a one-character separator: never the empty list.\<close>

fun split :: "char \<Rightarrow> string \<Rightarrow> string list" where
  "split sep [] = [[]]"
| "split sep (c # cs) =
     (if c = sep then [] # split sep cs
      else (case split sep cs of
              [] \<Rightarrow> [[c]]
            | l # ls \<Rightarrow> (c # l) # ls))"

subsection \<open>Grouping characters by font size (lines 35 to 61)\<close>

text \<open>
  \<open>words_with_font_sizes\<close> is an OrderedDict from font size to a list of words: an
  association list in insertion order. Its keys are \<open>'n option\<close>, since the variable
  \<open>current_font_size\<close> that supplies them starts as \<open>None\<close>.

  Lines 49 to 51 and 59 to 61: create the bucket if the key is new, then append.
\<close>

definition add_word ::
  "('k \<times> string list) list \<Rightarrow> 'k \<Rightarrow> string \<Rightarrow> ('k \<times> string list) list" where
  "add_word d k w =
     (let d1 = (if map_of d k = None then AList.update k [] d else d)
      in AList.map_entry k (\<lambda>ws. ws @ [w]) d1)"

text \<open>
  The loop of lines 39 to 55. Its state is \<open>words_with_font_sizes\<close>, \<open>current_word\<close>,
  \<open>current_font_size\<close> and \<open>text\<close>: line 41 assigns the character's text to the
  variable \<open>text\<close> that line 25 set to the page's extracted text.
\<close>

type_synonym 'n char_state =
  "('n option \<times> string list) list \<times> string \<times> 'n option \<times> string"

fun char_loop :: "'n char_rec list \<Rightarrow> 'n char_state \<Rightarrow> 'n char_state" where
  "char_loop [] st = st"
| "char_loop (c # cs) (words_with_font_sizes, current_word, current_font_size, text0) =
     (let font_size = char_size c;
          text1 = char_text c
      in if current_font_size = None \<or> current_font_size = Some font_size
         then char_loop cs (words_with_font_sizes, current_word @ text1, Some font_size, text1)
         else char_loop cs
                (add_word words_with_font_sizes current_font_size (strip current_word),
                 text1, Some font_size, text1))"

text \<open>Lines 58 to 61: the last word is added if it is not empty.\<close>

definition flush_last :: "'n char_state \<Rightarrow> 'n char_state" where
  "flush_last st =
     (case st of (words_with_font_sizes, current_word, current_font_size, text0) \<Rightarrow>
        if current_word \<noteq> []
        then (add_word words_with_font_sizes current_font_size (strip current_word),
              current_word, current_font_size, text0)
        else st)"

text \<open>
  Lines 73 to 76: the dictionary comprehension that renames every key to
  \<open>f"Size: {size}"\<close>. Formatting a number is Python's; it is the parameter \<open>fmt\<close>.
  \<open>None\<close> formats as \<open>None\<close>. A key that repeats replaces the earlier value in place.
\<close>

definition size_key :: "('n \<Rightarrow> string) \<Rightarrow> 'n option \<Rightarrow> string" where
  "size_key fmt k = ''Size: '' @ (case k of None \<Rightarrow> ''None'' | Some s \<Rightarrow> fmt s)"

definition rekey ::
  "('n \<Rightarrow> string) \<Rightarrow> ('n option \<times> string list) list \<Rightarrow> (string \<times> string list) list" where
  "rekey fmt d = foldl (\<lambda>acc (k, ws). AList.update (size_key fmt k) ws acc) [] d"

subsection \<open>The page result (lines 25 to 77)\<close>

record 'l page_data =
  page_number :: nat
  title :: string
  text_field :: string
  tables_count :: nat
  images_count :: nat
  tables :: "string option list list list"
  lines_count :: nat
  lines :: "'l list"
  words_with_font_sizes :: "(string \<times> string list) list"

text \<open>
  \<open>text_field\<close> is the value under the key \<open>"text"\<close>. \<open>i\<close> is the index \<open>enumerate\<close>
  gives the page. Line 32 takes the first line only when \<open>text\<close> is not empty.
\<close>

definition page_result :: "('n \<Rightarrow> string) \<Rightarrow> nat \<Rightarrow> ('n, 'l) page \<Rightarrow> 'l page_data" where
  "page_result fmt i page =
     (let text0 = page_extract_text page;
          tables0 = page_extract_tables page;
          images0 = page_images page;
          lines0 = page_lines page;
          chars = page_chars page;
          first_line = (if text0 \<noteq> [] then hd (split (CHR 0x0A) text0) else [])
      in case flush_last (char_loop chars ([], [], None, text0)) of
           (wwfs, current_word, current_font_size, text1) \<Rightarrow>
             \<lparr> page_number = i + 1,
               title = strip first_line,
               text_field = text1,
               tables_count = length tables0,
               images_count = length images0,
               tables = tables0,
               lines_count = length lines0,
               lines = lines0,
               words_with_font_sizes = rekey fmt wwfs \<rparr>)"

subsection \<open>Files, directories and what the run does to them\<close>

text \<open>
  A PDF file is a list of pages. pdfplumber and PyMuPDF open the same file, so both see the
  same pages: pdfplumber sees of each page what its extraction calls return, or the
  exception one of them raises; PyMuPDF sees the rectangles drawn on it.
\<close>

datatype error =
  FileNotFoundError | FileExistsError | NotADirectoryError | IsADirectoryError
  | PDFSyntaxError | LibraryError | IndexError | ValueError

record ('n, 'l) pdf_page =
  extraction :: "error + ('n, 'l) page"
  drawings :: "'n rect list"

record 'l results =
  pdf_path :: string
  pages :: "'l page_data list"

datatype ('n, 'l) content = PdfFile "('n, 'l) pdf_page list" | JsonFile "'l results"

text \<open>The calls with an effect outside the process, in the order they happen.\<close>

datatype event =
  MakeDirs string | PrintProcessing nat | SavePdf string | PrintAnnotated string
  | WriteJson string | PrintResults string

record ('n, 'l) world =
  dirs :: "string set"
  files :: "string \<rightharpoonup> ('n, 'l) content"
  trace :: "event list"

text \<open>
  \<open>os.path.dirname\<close> (posixpath): everything up to the last slash, with trailing
  slashes removed unless it consists of slashes only.
\<close>

definition dirname :: "string \<Rightarrow> string" where
  "dirname p =
     (let head = rev (dropWhile (\<lambda>c. c \<noteq> CHR ''/'') (rev p))
      in if head \<noteq> [] \<and> \<not> list_all (\<lambda>c. c = CHR ''/'') head
         then rev (dropWhile (\<lambda>c. c = CHR ''/'') (rev head))
         else head)"

text \<open>The proper ancestors of a path: what stands before each of its inner slashes.\<close>

definition parents :: "string \<Rightarrow> string list" where
  "parents p = map (\<lambda>i. take i p) (filter (\<lambda>i. p ! i = CHR ''/'') [1..<length p])"

text \<open>
  The empty path is the current directory and a path of slashes is the root: both exist.
\<close>

definition dir_exists :: "('n, 'l) world \<Rightarrow> string \<Rightarrow> bool" where
  "dir_exists w d = (d = [] \<or> list_all (\<lambda>c. c = CHR ''/'') d \<or> d \<in> dirs w)"

text \<open>
  \<open>os.makedirs(name, exist_ok=True)\<close>: raises on the empty name and where a file is in
  the way; otherwise the directory and its missing ancestors exist afterwards.
\<close>

definition makedirs :: "string \<Rightarrow> ('n, 'l) world \<Rightarrow> error + ('n, 'l) world" where
  "makedirs name w =
     (if name = [] then Inl FileNotFoundError
      else if files w name \<noteq> None then Inl FileExistsError
      else if list_ex (\<lambda>q. files w q \<noteq> None) (parents name) then Inl NotADirectoryError
      else Inr (w\<lparr>dirs := dirs w \<union> set (name # parents name),
                  trace := trace w @ [MakeDirs name]\<rparr>))"

text \<open>\<open>os.path.basename\<close>: what follows the last slash.\<close>

definition basename :: "string \<Rightarrow> string" where
  "basename p = rev (takeWhile (\<lambda>c. c \<noteq> CHR ''/'') (rev p))"

text \<open>
  Opening a path for writing: the path must name a file, so it is not empty, does not end
  in a slash or in a dot component, and is not a directory; its directory must exist, and
  none is created.
\<close>

definition write_file ::
  "string \<Rightarrow> ('n, 'l) content \<Rightarrow> ('n, 'l) world \<Rightarrow> error + ('n, 'l) world" where
  "write_file path c w =
     (if path = [] then Inl FileNotFoundError
      else if basename path \<in> {[], ''.'', ''..''} \<or> path \<in> dirs w then Inl IsADirectoryError
      else if dir_exists w (dirname path) then Inr (w\<lparr>files := (files w)(path \<mapsto> c)\<rparr>)
      else Inl FileNotFoundError)"

text \<open>
  \<open>pdf_document.save(filename)\<close> of PyMuPDF, for a document opened from \<open>name\<close>: it
  refuses to save onto the file the document was opened from (a save to the original must
  be incremental) and to save a document with zero pages; otherwise it writes the file.
\<close>

definition save_pdf ::
  "string \<Rightarrow> string \<Rightarrow> ('n, 'l) pdf_page list \<Rightarrow> ('n, 'l) world \<Rightarrow> error + ('n, 'l) world" where
  "save_pdf name filename doc w =
     (if filename = name then Inl ValueError
      else if doc = [] then Inl ValueError
      else write_file filename (PdfFile doc) w)"

text \<open>The condition under which opening a path for writing succeeds.\<close>

definition can_write :: "('n, 'l) world \<Rightarrow> string \<Rightarrow> bool" where
  "can_write w path =
     (path \<noteq> [] \<and> basename path \<notin> {[], ''.'', ''..''} \<and> path \<notin> dirs w \<and>
      dir_exists w (dirname path))"

definition open_pdf :: "string \<Rightarrow> ('n, 'l) world \<Rightarrow> error + ('n, 'l) pdf_page list" where
  "open_pdf path w =
     (case files w path of
        None \<Rightarrow> Inl FileNotFoundError
      | Some (JsonFile r) \<Rightarrow> Inl PDFSyntaxError
      | Some (PdfFile d) \<Rightarrow> Inr d)"

subsection \<open>Annotation (lines 81 to 97)\<close>

definition draw_rect :: "'n rect list \<Rightarrow> 'n rect \<Rightarrow> 'n rect list" where
  "draw_rect pdf_page r = pdf_page @ [r]"

definition annotate :: "('n, 'l) page \<Rightarrow> 'n rect list \<Rightarrow> 'n rect list" where
  "annotate page pdf_page =
     (let p1 = foldl (\<lambda>pg image.
                  draw_rect pg (image_x0 image, image_top image, image_x1 image, image_bottom image))
                pdf_page (page_images page);
          p2 = foldl (\<lambda>pg bbox. draw_rect pg bbox) p1 (page_find_tables page);
          p3 = foldl (\<lambda>pg char.
                  draw_rect pg (char_x0 char, char_top char, char_x1 char, char_bottom char))
                p2 (page_chars page)
      in p3)"

subsection \<open>The page loop (lines 21 to 97) and the whole run\<close>

text \<open>
  The loop state is \<open>results["pages"]\<close>, the PyMuPDF document and the world. An
  exception of pdfplumber on a page leaves the loop after the progress line; so does
  \<open>pdf_document[i]\<close> out of range.
\<close>

type_synonym ('n, 'l) loop_state =
  "'l page_data list \<times> 'n rect list list \<times> ('n, 'l) world"

fun page_loop ::
  "('n \<Rightarrow> string) \<Rightarrow> nat \<Rightarrow> (error + ('n, 'l) page) list \<Rightarrow> ('n, 'l) loop_state
     \<Rightarrow> error option \<times> ('n, 'l) loop_state" where
  "page_loop fmt i [] st = (None, st)"
| "page_loop fmt i (p # ps) (pages_acc, pdf_document, w) =
     (let w1 = w\<lparr>trace := trace w @ [PrintProcessing (i + 1)]\<rparr>
      in case p of
           Inl e \<Rightarrow> (Some e, (pages_acc, pdf_document, w1))
         | Inr page \<Rightarrow>
             (let pages1 = pages_acc @ [page_result fmt i page]
              in if i < length pdf_document
                 then page_loop fmt (i + 1) ps
                        (pages1, pdf_document[i := annotate page (pdf_document ! i)], w1)
                 else (Some IndexError, (pages1, pdf_document, w1))))"

text \<open>The file that \<open>pdf_document.save\<close> writes: the input's pages with the new drawings.\<close>

definition saved_pdf ::
  "('n, 'l) pdf_page list \<Rightarrow> 'n rect list list \<Rightarrow> ('n, 'l) pdf_page list" where
  "saved_pdf pdf pdf_document = map (\<lambda>(p, d). p\<lparr>drawings := d\<rparr>) (zip pdf pdf_document)"

text \<open>
  \<open>detect_layout\<close>, lines 7 to 106. The result is the exception that ended the run, if
  any, and the world as the run left it.
\<close>

definition detect_layout ::
  "('n \<Rightarrow> string) \<Rightarrow> string \<Rightarrow> string \<Rightarrow> string \<Rightarrow> ('n, 'l) world
     \<Rightarrow> error option \<times> ('n, 'l) world" where
  "detect_layout fmt input_pdf_path output_pdf_path output_json_path w =
     (case makedirs (dirname output_json_path) w of
        Inl e \<Rightarrow> (Some e, w)
      | Inr w1 \<Rightarrow>
          (case open_pdf input_pdf_path w1 of
             Inl e \<Rightarrow> (Some e, w1)
           | Inr pdf \<Rightarrow>
               (case page_loop fmt 0 (map extraction pdf) ([], map drawings pdf, w1) of
                  (Some e, (pages_acc, pdf_document, w2)) \<Rightarrow> (Some e, w2)
                | (None, (pages_acc, pdf_document, w2)) \<Rightarrow>
                    (case save_pdf input_pdf_path output_pdf_path
                            (saved_pdf pdf pdf_document) w2 of
                       Inl e \<Rightarrow> (Some e, w2)
                     | Inr w3 \<Rightarrow>
                         (let w4 = w3\<lparr>trace := trace w3 @
                                     [SavePdf output_pdf_path, PrintAnnotated output_pdf_path]\<rparr>;
                              results = \<lparr>pdf_path = input_pdf_path, pages = pages_acc\<rparr>
                          in case write_file output_json_path (JsonFile results) w4 of
                               Inl e \<Rightarrow> (Some e, w4)
                             | Inr w5 \<Rightarrow>
                                 (None, w5\<lparr>trace := trace w5 @
                                          [WriteJson output_json_path,
                                           PrintResults output_json_path]\<rparr>))))))"

subsection \<open>The grouping as the specification describes it\<close>

text \<open>
  The maximal contiguous runs of equal font size of a character sequence, written without
  reference to the loop: a run is the first character and all that follow with its size.
\<close>

function runs :: "'n char_rec list \<Rightarrow> 'n char_rec list list" where
  "runs [] = []"
| "runs (c # cs) =
     (c # takeWhile (\<lambda>d. char_size d = char_size c) cs)
       # runs (dropWhile (\<lambda>d. char_size d = char_size c) cs)"
  by pat_completeness auto
termination
  by (relation "measure length") (auto simp: length_dropWhile_le le_imp_less_Suc)

text \<open>The concatenated text of a run and its font size.\<close>

definition run_text :: "'n char_rec list \<Rightarrow> string" where
  "run_text r = concat (map char_text r)"

definition run_size :: "'n char_rec list \<Rightarrow> 'n" where
  "run_size r = char_size (hd r)"

text \<open>
  The runs that reach the output: all of them, but for a last run whose text is empty.
\<close>

definition emitted :: "'n char_rec list \<Rightarrow> 'n char_rec list list" where
  "emitted cs =
     (let rs = runs cs
      in if rs \<noteq> [] \<and> run_text (last rs) = [] then butlast rs else rs)"

text \<open>The stripped texts of the emitted runs of one size, in extraction order.\<close>

definition bucket :: "'n char_rec list \<Rightarrow> 'n \<Rightarrow> string list" where
  "bucket cs s = map (\<lambda>r. strip (run_text r)) (filter (\<lambda>r. run_size r = s) (emitted cs))"

text \<open>The word a run contributes, with its key, and adding a sequence of words.\<close>

abbreviation entry :: "'n char_rec list \<Rightarrow> 'n option \<times> string" where
  "entry r \<equiv> (Some (run_size r), strip (run_text r))"

abbreviation add_all ::
  "('k \<times> string list) list \<Rightarrow> ('k \<times> string) list \<Rightarrow> ('k \<times> string list) list" where
  "add_all d es \<equiv> foldl (\<lambda>d (k, w). add_word d k w) d es"

subsection \<open>Sample inputs\<close>

text \<open>
  Concrete pages and a concrete file system, for the examples below. Numbers are given by
  their decimal text here, so the formatter is the identity.
\<close>

definition sample_char :: "string \<Rightarrow> string \<Rightarrow> string char_rec" where
  "sample_char t s =
     \<lparr>char_text = t, char_size = s,
      char_x0 = ''0'', char_top = ''0'', char_x1 = ''1'', char_bottom = ''1''\<rparr>"

text \<open>A page with the text \<open>Hi\<close>, both characters of size 12.\<close>

definition page_hi :: "(string, unit) page" where
  "page_hi =
     \<lparr>page_extract_text = ''Hi'', page_extract_tables = [], page_images = [],
      page_lines = [], page_chars = [sample_char ''H'' ''12'', sample_char ''i'' ''12''],
      page_find_tables = []\<rparr>"

text \<open>A page whose only character is a space: pdfplumber extracts the empty text from it.\<close>

definition page_blank :: "(string, unit) page" where
  "page_blank =
     \<lparr>page_extract_text = [], page_extract_tables = [], page_images = [],
      page_lines = [], page_chars = [sample_char '' '' ''12''],
      page_find_tables = []\<rparr>"

text \<open>
  A page with \<open>a\<close> and a space of size 12, then \<open>b\<close> of size 10, one image, one line and
  one table that both table calls find.
\<close>

definition page_mixed :: "(string, unit) page" where
  "page_mixed =
     \<lparr>page_extract_text = ''a b'', page_extract_tables = [[[Some ''x'', None]]],
      page_images = [\<lparr>image_x0 = ''2'', image_top = ''2'', image_x1 = ''3'', image_bottom = ''3''\<rparr>],
      page_lines = [()],
      page_chars = [sample_char ''a'' ''12'', sample_char '' '' ''12'', sample_char ''b'' ''10''],
      page_find_tables = [(''4'', ''4'', ''5'', ''5'')]\<rparr>"

text \<open>A page with nothing on it.\<close>

definition page_empty :: "(string, unit) page" where
  "page_empty =
     \<lparr>page_extract_text = [], page_extract_tables = [], page_images = [],
      page_lines = [], page_chars = [], page_find_tables = []\<rparr>"

definition sample_pdf :: "(string, unit) pdf_page list" where
  "sample_pdf =
     [\<lparr>extraction = Inr page_hi, drawings = []\<rparr>,
      \<lparr>extraction = Inr page_mixed, drawings = []\<rparr>,
      \<lparr>extraction = Inr page_empty, drawings = []\<rparr>]"

text \<open>The same file with a second page on which pdfplumber raises.\<close>

definition faulty_pdf :: "(string, unit) pdf_page list" where
  "faulty_pdf =
     [\<lparr>extraction = Inr page_hi, drawings = []\<rparr>,
      \<lparr>extraction = Inl LibraryError, drawings = []\<rparr>,
      \<lparr>extraction = Inr page_empty, drawings = []\<rparr>]"

text \<open>A working directory that holds the input file and no directory yet.\<close>

definition sample_world :: "(string, unit) pdf_page list \<Rightarrow> (string, unit) world" where
  "sample_world pdf =
     \<lparr>dirs = {}, files = [''Fraud_Report_2022.pdf'' \<mapsto> PdfFile pdf], trace = []\<rparr>"

text \<open>The call of the entry point (lines 108 to 115) in that directory.\<close>

definition sample_run ::
  "(string, unit) pdf_page list \<Rightarrow> error option \<times> (string, unit) world" where
  "sample_run pdf =
     detect_layout (\<lambda>s. s) ''Fraud_Report_2022.pdf'' ''output/annotated_file.pdf''
       ''output/layout_results1.json'' (sample_world pdf)"

section \<open>Properties\<close>

subsection \<open>Annotation and the page loop\<close>

lemma char_loop_text:
  "snd (snd (snd (char_loop cs (d, cw, cfs, t)))) = (if cs = [] then t else char_text (last cs))"
  by (induction cs arbitrary: d cw cfs t) (auto simp: Let_def)

lemma page_result_text:
  "text_field (page_result fmt i pg) =
     (if page_chars pg = [] then page_extract_text pg else char_text (last (page_chars pg)))"
proof -
  obtain d cw cfs t where
    st: "char_loop (page_chars pg) ([], [], None, page_extract_text pg) = (d, cw, cfs, t)"
    by (metis prod_cases4)
  have "t = (if page_chars pg = [] then page_extract_text pg
             else char_text (last (page_chars pg)))"
    using char_loop_text[of "page_chars pg" "[]" "[]" None "page_extract_text pg"] st by simp
  then show ?thesis
    by (simp add: page_result_def Let_def st flush_last_def)
qed

lemma page_result_fields:
  "page_number (page_result fmt i pg) = i + 1"
  "title (page_result fmt i pg) =
     strip (if page_extract_text pg \<noteq> [] then hd (split (CHR 0x0A) (page_extract_text pg)) else [])"
  "tables_count (page_result fmt i pg) = length (page_extract_tables pg)"
  "images_count (page_result fmt i pg) = length (page_images pg)"
  "lines_count (page_result fmt i pg) = length (page_lines pg)"
  "tables (page_result fmt i pg) = page_extract_tables pg"
  "lines (page_result fmt i pg) = page_lines pg"
  by (simp_all add: page_result_def Let_def split: prod.splits)

lemma annotate_eq:
  "annotate page pg = pg
     @ map (\<lambda>image. (image_x0 image, image_top image, image_x1 image, image_bottom image)) (page_images page)
     @ page_find_tables page
     @ map (\<lambda>c. (char_x0 c, char_top c, char_x1 c, char_bottom c)) (page_chars page)"
proof -
  have draw: "foldl (\<lambda>pg x. draw_rect pg (f x)) pg xs = pg @ map f xs" for f :: "'c \<Rightarrow> 'a rect" and pg xs
    by (induction xs arbitrary: pg) (simp_all add: draw_rect_def)
  have draw': "foldl (\<lambda>pg x. draw_rect pg x) pg xs = pg @ xs" for pg and xs :: "'a rect list"
    using draw[of "\<lambda>x. x" pg xs] by simp
  show ?thesis
    by (simp add: annotate_def Let_def draw draw')
qed

lemma page_loop_world:
  "page_loop fmt i ps (acc, doc, w) = (r, (acc', doc', w')) \<Longrightarrow>
     dirs w' = dirs w \<and> files w' = files w \<and> length doc' = length doc"
proof (induction ps arbitrary: i acc doc w)
  case Nil
  then show ?case by simp
next
  case (Cons p ps)
  show ?case
  proof (cases p)
    case (Inl e)
    with Cons.prems show ?thesis by auto
  next
    case (Inr page)
    show ?thesis
    proof (cases "i < length doc")
      case True
      with Cons.prems Inr have
        "page_loop fmt (i + 1) ps (acc @ [page_result fmt i page],
            doc[i := annotate page (doc ! i)], w\<lparr>trace := trace w @ [PrintProcessing (i + 1)]\<rparr>)
          = (r, (acc', doc', w'))"
        by (simp add: Let_def)
      from Cons.IH[OF this] show ?thesis by simp
    next
      case False
      with Cons.prems Inr show ?thesis by (auto simp: Let_def)
    qed
  qed
qed

lemma page_loop_fault:
  "page_loop fmt i ps (acc, doc, w) = (r, st) \<Longrightarrow> Inl e \<in> set ps \<Longrightarrow> r \<noteq> None"
proof (induction ps arbitrary: i acc doc w)
  case Nil
  then show ?case by simp
next
  case (Cons p ps)
  show ?case
  proof (cases p)
    case (Inl e')
    with Cons.prems show ?thesis by auto
  next
    case (Inr page)
    with Cons.prems have mem: "Inl e \<in> set ps" by auto
    show ?thesis
    proof (cases "i < length doc")
      case True
      with Cons.prems Inr have
        "page_loop fmt (i + 1) ps (acc @ [page_result fmt i page],
            doc[i := annotate page (doc ! i)], w\<lparr>trace := trace w @ [PrintProcessing (i + 1)]\<rparr>)
          = (r, st)"
        by (simp add: Let_def)
      from Cons.IH[OF this mem] show ?thesis .
    next
      case False
      with Cons.prems Inr show ?thesis by (auto simp: Let_def)
    qed
  qed
qed

lemma page_loop_trace:
  "page_loop fmt i ps (acc, doc, w) = (r, (acc', doc', w')) \<Longrightarrow>
     \<exists>n \<le> length ps. trace w' = trace w @ map PrintProcessing [Suc i..<Suc i + n]"
proof (induction ps arbitrary: i acc doc w)
  case Nil
  then show ?case by simp
next
  case (Cons p ps)
  let ?w1 = "w\<lparr>trace := trace w @ [PrintProcessing (i + 1)]\<rparr>"
  have one: "trace ?w1 = trace w @ map PrintProcessing [Suc i..<Suc i + 1]" by simp
  show ?case
  proof (cases p)
    case (Inl e)
    with Cons.prems have "w' = ?w1" by auto
    with one show ?thesis by (intro exI[of _ 1]) simp
  next
    case (Inr page)
    show ?thesis
    proof (cases "i < length doc")
      case True
      with Cons.prems Inr have
        "page_loop fmt (i + 1) ps (acc @ [page_result fmt i page],
            doc[i := annotate page (doc ! i)], ?w1) = (r, (acc', doc', w'))"
        by (simp add: Let_def)
      from Cons.IH[OF this] obtain n where n: "n \<le> length ps"
        and tr: "trace w' = trace ?w1 @ map PrintProcessing [Suc (i + 1)..<Suc (i + 1) + n]"
        by auto
      have "[Suc i..<Suc i + Suc n] = Suc i # [Suc (i + 1)..<Suc (i + 1) + n]"
        by (simp add: upt_rec)
      with tr have "trace w' = trace w @ map PrintProcessing [Suc i..<Suc i + Suc n]"
        by simp
      with n show ?thesis by (intro exI[of _ "Suc n"]) simp
    next
      case False
      with Cons.prems Inr have "w' = ?w1" by (auto simp: Let_def)
      with one show ?thesis by (intro exI[of _ 1]) simp
    qed
  qed
qed

lemma page_loop_success:
  "page_loop fmt i ps (acc, doc, w) = (None, (acc', doc', w')) \<Longrightarrow>
     (\<exists>rs. acc' = acc @ rs \<and> length rs = length ps \<and>
        (\<forall>k<length ps. \<exists>pg. ps ! k = Inr pg \<and> rs ! k = page_result fmt (i + k) pg
           \<and> i + k < length doc \<and> doc' ! (i + k) = annotate pg (doc ! (i + k)))) \<and>
     (\<forall>j<i. doc' ! j = doc ! j) \<and>
     trace w' = trace w @ map PrintProcessing [Suc i..<Suc i + length ps]"
proof (induction ps arbitrary: i acc doc w)
  case Nil
  then show ?case by simp
next
  case (Cons p ps)
  let ?w1 = "w\<lparr>trace := trace w @ [PrintProcessing (i + 1)]\<rparr>"
  from Cons.prems obtain page where p: "p = Inr page"
    by (cases p) auto
  from Cons.prems p have i: "i < length doc"
    by (auto simp: Let_def split: if_splits)
  let ?acc1 = "acc @ [page_result fmt i page]"
  let ?doc1 = "doc[i := annotate page (doc ! i)]"
  from Cons.prems p i have rec: "page_loop fmt (i + 1) ps (?acc1, ?doc1, ?w1) = (None, (acc', doc', w'))"
    by (simp add: Let_def)
  from Cons.IH[OF rec] obtain rs where
    acc': "acc' = ?acc1 @ rs" and len: "length rs = length ps" and
    each: "\<And>k. k < length ps \<Longrightarrow> \<exists>pg. ps ! k = Inr pg \<and> rs ! k = page_result fmt (i + 1 + k) pg
            \<and> i + 1 + k < length ?doc1 \<and> doc' ! (i + 1 + k) = annotate pg (?doc1 ! (i + 1 + k))" and
    below: "\<And>j. j < i + 1 \<Longrightarrow> doc' ! j = ?doc1 ! j" and
    tr: "trace w' = trace ?w1 @ map PrintProcessing [Suc (i + 1)..<Suc (i + 1) + length ps]"
    by blast
  let ?rs = "page_result fmt i page # rs"
  have 1: "acc' = acc @ ?rs" using acc' by simp
  have 2: "length ?rs = length (p # ps)" using len by simp
  have 3: "\<exists>pg. (p # ps) ! k = Inr pg \<and> ?rs ! k = page_result fmt (i + k) pg
            \<and> i + k < length doc \<and> doc' ! (i + k) = annotate pg (doc ! (i + k))"
    if k: "k < length (p # ps)" for k
  proof (cases k)
    case 0
    have "doc' ! i = ?doc1 ! i" using below[of i] by simp
    with i p 0 show ?thesis by simp
  next
    case (Suc k')
    with k have "k' < length ps" by simp
    from each[OF this] Suc show ?thesis by simp
  qed
  have 4: "\<forall>j<i. doc' ! j = doc ! j"
  proof (intro allI impI)
    fix j assume "j < i"
    then have "doc' ! j = ?doc1 ! j" "j \<noteq> i" using below[of j] by simp_all
    then show "doc' ! j = doc ! j" by simp
  qed
  have "[Suc i..<Suc i + length (p # ps)] = Suc i # [Suc (i + 1)..<Suc (i + 1) + length ps]"
    by (simp add: upt_rec)
  with tr have 5: "trace w' = trace w @ map PrintProcessing [Suc i..<Suc i + length (p # ps)]"
    by simp
  from 1 2 3 4 5 show ?case by blast
qed

lemma page_loop_runs:
  "\<forall>p \<in> set ps. \<exists>pg. p = Inr pg \<Longrightarrow> i + length ps \<le> length doc \<Longrightarrow>
     fst (page_loop fmt i ps (acc, doc, w)) = None"
proof (induction ps arbitrary: i acc doc w)
  case Nil
  then show ?case by simp
next
  case (Cons p ps)
  then obtain page where p: "p = Inr page" by auto
  from Cons.prems have "i < length doc" "\<forall>p \<in> set ps. \<exists>pg. p = Inr pg" "(i + 1) + length ps \<le> length doc"
    by simp_all
  with Cons.IH[of "i + 1"] p show ?case by (simp add: Let_def)
qed


lemma makedirs_Inr:
  "makedirs d w = Inr w1 \<Longrightarrow>
     d \<noteq> [] \<and> w1 = w\<lparr>dirs := dirs w \<union> set (d # parents d), trace := trace w @ [MakeDirs d]\<rparr>"
  by (auto simp: makedirs_def split: if_splits)

lemma write_file_Inr:
  "write_file p c w = Inr w1 \<Longrightarrow> w1 = w\<lparr>files := (files w)(p \<mapsto> c)\<rparr>"
  by (auto simp: write_file_def split: if_splits)

lemma save_pdf_Inr:
  "save_pdf name p doc w = Inr w1 \<Longrightarrow>
     p \<noteq> name \<and> doc \<noteq> [] \<and> w1 = w\<lparr>files := (files w)(p \<mapsto> PdfFile doc)\<rparr>"
  by (auto simp: save_pdf_def write_file_def split: if_splits)

lemma open_pdf_Inr:
  "open_pdf p w = Inr pdf \<longleftrightarrow> files w p = Some (PdfFile pdf)"
  by (auto simp: open_pdf_def split: option.splits content.splits)

lemma saved_pdf_nth:
  "length doc = length pdf \<Longrightarrow> k < length pdf \<Longrightarrow>
     saved_pdf pdf doc ! k = (pdf ! k)\<lparr>drawings := doc ! k\<rparr>"
  by (simp add: saved_pdf_def)

lemma saved_pdf_length:
  "length doc = length pdf \<Longrightarrow> length (saved_pdf pdf doc) = length pdf"
  by (simp add: saved_pdf_def)

lemma detect_layout_success:
  assumes run: "detect_layout fmt inp outp outj w = (None, w')"
    and inp: "files w inp = Some (PdfFile pdf)"
  shows "\<exists>rs doc.
     length rs = length pdf \<and> length doc = length pdf \<and>
     (\<forall>k<length pdf. \<exists>pg. extraction (pdf ! k) = Inr pg \<and> rs ! k = page_result fmt k pg
         \<and> doc ! k = annotate pg (drawings (pdf ! k))) \<and>
     files w' = (files w)(outp \<mapsto> PdfFile (saved_pdf pdf doc),
                          outj \<mapsto> JsonFile \<lparr>pdf_path = inp, pages = rs\<rparr>) \<and>
     dirs w' = dirs w \<union> set (dirname outj # parents (dirname outj)) \<and>
     trace w' = trace w @ MakeDirs (dirname outj) # map PrintProcessing [1..<Suc (length pdf)]
                  @ [SavePdf outp, PrintAnnotated outp, WriteJson outj, PrintResults outj]"
proof -
  let ?d = "dirname outj"
  from run obtain w1 where md: "makedirs ?d w = Inr w1"
    by (auto simp: detect_layout_def split: sum.splits)
  from makedirs_Inr[OF md] have w1: "w1 = w\<lparr>dirs := dirs w \<union> set (?d # parents ?d),
      trace := trace w @ [MakeDirs ?d]\<rparr>" by simp
  from inp w1 have op: "open_pdf inp w1 = Inr pdf"
    by (simp add: open_pdf_Inr)
  from run md op obtain acc doc w2 w3 w5 where
    loop: "page_loop fmt 0 (map extraction pdf) ([], map drawings pdf, w1) = (None, (acc, doc, w2))" and
    sv: "save_pdf inp outp (saved_pdf pdf doc) w2 = Inr w3" and
    js: "write_file outj (JsonFile \<lparr>pdf_path = inp, pages = acc\<rparr>)
           (w3\<lparr>trace := trace w3 @ [SavePdf outp, PrintAnnotated outp]\<rparr>) = Inr w5" and
    w': "w' = w5\<lparr>trace := trace w5 @ [WriteJson outj, PrintResults outj]\<rparr>"
    by (auto simp: detect_layout_def Let_def split: sum.splits option.splits prod.splits)
  from page_loop_world[OF loop] have w2: "dirs w2 = dirs w1" "files w2 = files w1"
    and ldoc: "length doc = length pdf" by simp_all
  from page_loop_success[OF loop] have
    lacc: "length acc = length pdf" and
    each: "\<And>k. k < length pdf \<Longrightarrow> \<exists>pg. extraction (pdf ! k) = Inr pg \<and> acc ! k = page_result fmt k pg
              \<and> doc ! k = annotate pg (drawings (pdf ! k))" and
    tr: "trace w2 = trace w1 @ map PrintProcessing [1..<Suc (length pdf)]"
    by auto
  have f: "files w' = (files w)(outp \<mapsto> PdfFile (saved_pdf pdf doc),
                          outj \<mapsto> JsonFile \<lparr>pdf_path = inp, pages = acc\<rparr>)"
    using w' write_file_Inr[OF js] save_pdf_Inr[OF sv] w2 w1 by simp
  have d: "dirs w' = dirs w \<union> set (?d # parents ?d)"
    using w' write_file_Inr[OF js] save_pdf_Inr[OF sv] w2 w1 by simp
  have t: "trace w' = trace w @ MakeDirs ?d # map PrintProcessing [1..<Suc (length pdf)]
                  @ [SavePdf outp, PrintAnnotated outp, WriteJson outj, PrintResults outj]"
    using w' write_file_Inr[OF js] save_pdf_Inr[OF sv] tr w1 by simp
  from lacc ldoc each f d t show ?thesis by blast
qed

lemma detect_layout_shape:
  assumes run: "detect_layout fmt inp outp outj w = (r, w')"
  shows "(\<exists>e. makedirs (dirname outj) w = Inl e \<and> r = Some e \<and> w' = w) \<or>
     (\<exists>n. dirs w' = dirs w \<union> set (dirname outj # parents (dirname outj)) \<and>
        ((r \<noteq> None \<and> files w' = files w \<and>
            trace w' = trace w @ MakeDirs (dirname outj) # map PrintProcessing [1..<Suc n]) \<or>
         (r \<noteq> None \<and> (\<exists>c. files w' = (files w)(outp \<mapsto> PdfFile c)) \<and>
            trace w' = trace w @ MakeDirs (dirname outj) # map PrintProcessing [1..<Suc n]
                        @ [SavePdf outp, PrintAnnotated outp]) \<or>
         (r = None \<and>
            trace w' = trace w @ MakeDirs (dirname outj) # map PrintProcessing [1..<Suc n]
                        @ [SavePdf outp, PrintAnnotated outp, WriteJson outj, PrintResults outj])))"
proof (cases "makedirs (dirname outj) w")
  case (Inl e)
  with run show ?thesis by (simp add: detect_layout_def)
next
  case (Inr w1)
  let ?d = "dirname outj"
  from makedirs_Inr[OF Inr] have w1: "w1 = w\<lparr>dirs := dirs w \<union> set (?d # parents ?d),
      trace := trace w @ [MakeDirs ?d]\<rparr>" by simp
  show ?thesis
  proof (cases "open_pdf inp w1")
    case (Inl e)
    with run Inr have "r = Some e" "w' = w1" by (simp_all add: detect_layout_def)
    with w1 have "dirs w' = dirs w \<union> set (?d # parents ?d) \<and> r \<noteq> None \<and> files w' = files w \<and>
            trace w' = trace w @ MakeDirs ?d # map PrintProcessing [1..<Suc 0]"
      by simp
    then show ?thesis by blast
  next
    case op: (Inr pdf)
    obtain r2 acc doc w2 where
      loop: "page_loop fmt 0 (map extraction pdf) ([], map drawings pdf, w1) = (r2, (acc, doc, w2))"
      by (metis prod_cases3)
    from page_loop_world[OF loop] have w2: "dirs w2 = dirs w1" "files w2 = files w1" by simp_all
    from page_loop_trace[OF loop] obtain n where
      tr: "trace w2 = trace w1 @ map PrintProcessing [1..<Suc n]" by auto
    show ?thesis
    proof (cases r2)
      case (Some e)
      with run Inr op loop have "r = Some e" "w' = w2" by (simp_all add: detect_layout_def)
      with w1 w2 tr have "dirs w' = dirs w \<union> set (?d # parents ?d) \<and> r \<noteq> None \<and> files w' = files w \<and>
            trace w' = trace w @ MakeDirs ?d # map PrintProcessing [1..<Suc n]"
        by simp
      then show ?thesis by blast
    next
      case None
      show ?thesis
      proof (cases "save_pdf inp outp (saved_pdf pdf doc) w2")
        case (Inl e)
        with run Inr op loop None have "r = Some e" "w' = w2" by (simp_all add: detect_layout_def)
        with w1 w2 tr have "dirs w' = dirs w \<union> set (?d # parents ?d) \<and> r \<noteq> None \<and> files w' = files w \<and>
            trace w' = trace w @ MakeDirs ?d # map PrintProcessing [1..<Suc n]"
          by simp
        then show ?thesis by blast
      next
        case sv: (Inr w3)
        let ?w4 = "w3\<lparr>trace := trace w3 @ [SavePdf outp, PrintAnnotated outp]\<rparr>"
        from save_pdf_Inr[OF sv]
        have w3: "w3 = w2\<lparr>files := (files w2)(outp \<mapsto> PdfFile (saved_pdf pdf doc))\<rparr>"
          by simp
        show ?thesis
        proof (cases "write_file outj (JsonFile \<lparr>pdf_path = inp, pages = acc\<rparr>) ?w4")
          case (Inl e)
          with run Inr op loop None sv have "r = Some e" "w' = ?w4"
            by (simp_all add: detect_layout_def Let_def)
          with w1 w2 w3 tr have "dirs w' = dirs w \<union> set (?d # parents ?d) \<and> r \<noteq> None \<and>
              files w' = (files w)(outp \<mapsto> PdfFile (saved_pdf pdf doc)) \<and>
              trace w' = trace w @ MakeDirs ?d # map PrintProcessing [1..<Suc n]
                        @ [SavePdf outp, PrintAnnotated outp]"
            by simp
          then show ?thesis by blast
        next
          case js: (Inr w5)
          with run Inr op loop None sv have "r = None"
            "w' = w5\<lparr>trace := trace w5 @ [WriteJson outj, PrintResults outj]\<rparr>"
            by (simp_all add: detect_layout_def Let_def)
          with w1 w2 w3 write_file_Inr[OF js] tr have
            "dirs w' = dirs w \<union> set (?d # parents ?d) \<and> r = None \<and>
              trace w' = trace w @ MakeDirs ?d # map PrintProcessing [1..<Suc n]
                        @ [SavePdf outp, PrintAnnotated outp, WriteJson outj, PrintResults outj]"
            by simp
          then show ?thesis by blast
        qed
      qed
    qed
  qed
qed

lemma detect_layout_page_fault:
  assumes run: "detect_layout fmt inp outp outj w = (r, w')"
    and inp: "files w inp = Some (PdfFile pdf)"
    and k: "k < length pdf" "extraction (pdf ! k) = Inl e"
  shows "r \<noteq> None \<and> files w' = files w"
proof (cases "makedirs (dirname outj) w")
  case (Inl e)
  with run show ?thesis by (auto simp: detect_layout_def)
next
  case (Inr w1)
  from makedirs_Inr[OF Inr] have fw1: "files w1 = files w" by simp
  with inp have op: "open_pdf inp w1 = Inr pdf" by (simp add: open_pdf_Inr)
  obtain r2 acc doc w2 where
    loop: "page_loop fmt 0 (map extraction pdf) ([], map drawings pdf, w1) = (r2, (acc, doc, w2))"
    by (metis prod_cases3)
  from k have "Inl e \<in> set (map extraction pdf)"
    by (metis length_map nth_map nth_mem)
  from page_loop_fault[OF loop this] obtain e2 where r2: "r2 = Some e2" by auto
  from page_loop_world[OF loop] have "files w2 = files w1" by simp
  with run Inr op loop r2 fw1 show ?thesis by (auto simp: detect_layout_def)
qed

lemma detect_layout_runs:
  assumes inp: "files w inp = Some (PdfFile pdf)"
    and lib: "\<forall>p \<in> set pdf. \<exists>pg. extraction p = Inr pg"
    and md: "makedirs (dirname outj) w = Inr w1"
    and sv: "pdf \<noteq> []" "outp \<noteq> inp"
    and fs: "can_write w1 outp" "can_write w1 outj"
  shows "fst (detect_layout fmt inp outp outj w) = None"
proof -
  let ?d = "dirname outj"
  from makedirs_Inr[OF md] have w1: "w1 = w\<lparr>dirs := dirs w \<union> set (?d # parents ?d),
      trace := trace w @ [MakeDirs ?d]\<rparr>" by simp
  with inp have op: "open_pdf inp w1 = Inr pdf" by (simp add: open_pdf_Inr)
  obtain r2 acc doc w2 where
    loop: "page_loop fmt 0 (map extraction pdf) ([], map drawings pdf, w1) = (r2, (acc, doc, w2))"
    by (metis prod_cases3)
  from lib have "\<forall>p \<in> set (map extraction pdf). \<exists>pg. p = Inr pg" by auto
  from page_loop_runs[OF this, of 0 "map drawings pdf" fmt "[]" w1] loop
  have r2: "r2 = None" by simp
  from page_loop_world[OF loop] have w2: "dirs w2 = dirs w1" "files w2 = files w1" by simp_all
  from page_loop_world[OF loop] have "length doc = length pdf" by simp
  with sv(1) have "saved_pdf pdf doc \<noteq> []" by (auto simp: saved_pdf_def)
  with fs(1) w2 sv(2) have sv: "save_pdf inp outp (saved_pdf pdf doc) w2
      = Inr (w2\<lparr>files := (files w2)(outp \<mapsto> PdfFile (saved_pdf pdf doc))\<rparr>)"
    by (simp add: save_pdf_def write_file_def can_write_def dir_exists_def)
  let ?w4 = "(w2\<lparr>files := (files w2)(outp \<mapsto> PdfFile (saved_pdf pdf doc))\<rparr>)
               \<lparr>trace := trace w2 @ [SavePdf outp, PrintAnnotated outp]\<rparr>"
  from fs(2) w2 have js: "\<exists>w5. write_file outj (JsonFile \<lparr>pdf_path = inp, pages = acc\<rparr>) ?w4 = Inr w5"
    by (simp add: write_file_def can_write_def dir_exists_def)
  with md op loop r2 sv show ?thesis
    by (auto simp: detect_layout_def Let_def)
qed

lemma detect_layout_input:
  assumes "detect_layout fmt inp outp outj w = (None, w')"
  shows "\<exists>pdf. files w inp = Some (PdfFile pdf)"
proof -
  from assms obtain w1 pdf where md: "makedirs (dirname outj) w = Inr w1"
    and op: "open_pdf inp w1 = Inr pdf"
    by (auto simp: detect_layout_def split: sum.splits)
  from makedirs_Inr[OF md] op show ?thesis
    by (auto simp: open_pdf_Inr)
qed



subsection \<open>Runs of equal font size and the character loop\<close>

lemma concat_runs: "concat (runs cs) = cs"
  by (induction cs rule: runs.induct) simp_all

lemma runs_uniform:
  "r \<in> set (runs cs) \<Longrightarrow> r \<noteq> [] \<and> (\<forall>c \<in> set r. char_size c = run_size r)"
proof (induction cs rule: runs.induct)
  case 1
  then show ?case by simp
next
  case (2 c cs)
  let ?a = "takeWhile (\<lambda>d. char_size d = char_size c) cs"
  let ?b = "dropWhile (\<lambda>d. char_size d = char_size c) cs"
  from "2.prems" have "r = c # ?a \<or> r \<in> set (runs ?b)"
    by (simp only: runs.simps set_simps insert_iff)
  then show ?case
  proof
    assume r: "r = c # ?a"
    have a: "char_size x = char_size c" if "x \<in> set ?a" for x
      using set_takeWhileD[OF that] by (rule conjunct2)
    have "char_size x = run_size (c # ?a)" if "x \<in> set (c # ?a)" for x
    proof (cases "x = c")
      case True
      then show ?thesis by (simp add: run_size_def)
    next
      case False
      with that have "x \<in> set ?a" by simp
      from a[OF this] show ?thesis by (simp add: run_size_def)
    qed
    then show ?thesis unfolding r by blast
  next
    assume "r \<in> set (runs ?b)"
    then show ?thesis by (rule "2.IH")
  qed
qed

lemma runs_eq_Nil [simp]: "runs cs = [] \<longleftrightarrow> cs = []"
  by (cases cs) simp_all

lemma hd_runs: "cs \<noteq> [] \<Longrightarrow> run_size (hd (runs cs)) = char_size (hd cs)"
  by (cases cs) (simp_all add: run_size_def)

lemma runs_maximal:
  "successively (\<lambda>r1 r2. run_size r1 \<noteq> run_size r2) (runs cs)"
proof (induction cs rule: runs.induct)
  case 1
  then show ?case by simp
next
  case (2 c cs)
  let ?a = "takeWhile (\<lambda>d. char_size d = char_size c) cs"
  let ?b = "dropWhile (\<lambda>d. char_size d = char_size c) cs"
  have R: "runs (c # cs) = (c # ?a) # runs ?b" by (simp only: runs.simps)
  show ?case
  proof (cases "runs ?b")
    case Nil
    show ?thesis by (simp only: R Nil successively.simps)
  next
    case (Cons r rs)
    have b: "?b \<noteq> []"
    proof
      assume "?b = []"
      then have "runs ?b = []" by (simp only: runs.simps)
      with Cons show False by simp
    qed
    then have "char_size (hd ?b) \<noteq> char_size c"
      using hd_dropWhile[of "\<lambda>d. char_size d = char_size c" cs] by simp
    moreover have "run_size (hd (runs ?b)) = char_size (hd ?b)"
      using b by (rule hd_runs)
    moreover have "run_size (c # ?a) = char_size c"
      by (simp add: run_size_def)
    ultimately have "run_size (c # ?a) \<noteq> run_size r"
      by (simp only: Cons list.sel) simp
    moreover have "successively (\<lambda>r1 r2. run_size r1 \<noteq> run_size r2) (r # rs)"
      using "2.IH" by (simp only: Cons)
    ultimately show ?thesis
      by (simp only: R Cons successively.simps) simp
  qed
qed

lemma char_loop_absorb:
  "\<forall>c \<in> set a. char_size c = s \<Longrightarrow>
     char_loop (a @ b) (d, cw, Some s, t) =
     char_loop b (d, cw @ concat (map char_text a), Some s,
                  if a = [] then t else char_text (last a))"
  by (induction a arbitrary: cw t) (auto simp: Let_def)

lemma char_loop_runs:
  "cs \<noteq> [] \<Longrightarrow>
     char_loop cs (d, [], None, t) =
       (add_all d (map entry (butlast (runs cs))),
        run_text (last (runs cs)), Some (run_size (last (runs cs))), char_text (last cs))"
proof (induction cs arbitrary: d t rule: runs.induct)
  case 1
  then show ?case by simp
next
  case (2 c cs)
  let ?s = "char_size c"
  let ?a = "takeWhile (\<lambda>d. char_size d = ?s) cs"
  let ?b = "dropWhile (\<lambda>d. char_size d = ?s) cs"
  let ?r = "c # ?a"
  let ?t = "if ?a = [] then char_text c else char_text (last ?a)"
  have R: "runs (c # cs) = ?r # runs ?b" by (simp only: runs.simps)
  have sz: "run_size ?r = ?s" by (simp add: run_size_def)
  have "\<forall>x \<in> set ?a. char_size x = ?s"
  proof
    fix x assume "x \<in> set ?a"
    from set_takeWhileD[OF this] show "char_size x = ?s" by (rule conjunct2)
  qed
  from char_loop_absorb[OF this, of ?b d "char_text c" "char_text c"]
  have step: "char_loop (c # cs) (d, [], None, t) = char_loop ?b (d, run_text ?r, Some ?s, ?t)"
    by (simp add: Let_def run_text_def)
  show ?case
  proof (cases "?b = []")
    case True
    then have a: "?a = cs" by simp
    have t: "?t = char_text (last (c # cs))"
      unfolding a by simp
    from True have "runs ?b = []" by simp
    with R have rs: "runs (c # cs) = [?r]" by (simp only:)
    have "char_loop ?b (d, run_text ?r, Some ?s, ?t) = (d, run_text ?r, Some ?s, ?t)"
      by (simp only: True char_loop.simps)
    with step have X: "char_loop (c # cs) (d, [], None, t)
        = (d, run_text ?r, Some (run_size ?r), char_text (last (c # cs)))"
      by (simp only: t sz)
    have B: "butlast (runs (c # cs)) = []" by (simp add: rs del: runs.simps)
    have L: "last (runs (c # cs)) = ?r" by (simp add: rs del: runs.simps)
    show ?thesis unfolding X B L by simp
  next
    case False
    then obtain c' b' where b: "?b = c' # b'" by (cases ?b) auto
    have "char_size (hd ?b) \<noteq> ?s"
      using False hd_dropWhile[of "\<lambda>d. char_size d = ?s" cs] by simp
    with b have ne: "char_size c' \<noteq> ?s" by simp
    let ?d' = "add_word d (Some ?s) (strip (run_text ?r))"
    have e1: "char_loop (c' # b') (d, run_text ?r, Some ?s, ?t)
        = char_loop b' (?d', char_text c', Some (char_size c'), char_text c')"
      using ne by (simp add: Let_def)
    have e2: "char_loop (c' # b') (?d', [], None, t)
        = char_loop b' (?d', char_text c', Some (char_size c'), char_text c')"
      by (simp add: Let_def)
    have "char_loop ?b (d, run_text ?r, Some ?s, ?t) = char_loop ?b (?d', [], None, t)"
      by (simp only: b e1 e2)
    also have "\<dots> = (add_all ?d' (map entry (butlast (runs ?b))),
        run_text (last (runs ?b)), Some (run_size (last (runs ?b))), char_text (last ?b))"
      using "2.IH"[OF False] .
    finally have l: "char_loop (c # cs) (d, [], None, t) =
       (add_all ?d' (map entry (butlast (runs ?b))),
        run_text (last (runs ?b)), Some (run_size (last (runs ?b))), char_text (last ?b))"
      by (simp only: step)
    have "last (?a @ ?b) = last ?b"
      using False by (rule last_appendR)
    then have "last cs = last ?b" by simp
    moreover have "cs \<noteq> []" using False by auto
    ultimately have lastb: "last ?b = last (c # cs)" by simp
    have rs: "runs ?b \<noteq> []" using False by simp
    have B: "butlast (runs (c # cs)) = ?r # butlast (runs ?b)"
      by (simp only: R butlast.simps rs if_False)
    have L: "last (runs (c # cs)) = last (runs ?b)"
      by (simp only: R last.simps rs if_False)
    have A: "add_all d (map entry (?r # butlast (runs ?b)))
        = add_all ?d' (map entry (butlast (runs ?b)))"
      by (simp only: list.map foldl.simps prod.case sz)
    show ?thesis by (simp only: l B L A lastb)
  qed
qed

lemma flush_char_loop:
  "fst (flush_last (char_loop cs ([], [], None, t))) = add_all [] (map entry (emitted cs))"
proof (cases "cs = []")
  case True
  then show ?thesis by (simp add: flush_last_def emitted_def)
next
  case False
  then have rs: "runs cs \<noteq> []" by simp
  then have bl: "butlast (runs cs) @ [last (runs cs)] = runs cs" by simp
  note st = char_loop_runs[OF False, of "[]" t]
  show ?thesis
  proof (cases "run_text (last (runs cs)) = []")
    case True
    have "emitted cs = butlast (runs cs)"
      using rs True by (simp add: emitted_def)
    then show ?thesis
      by (simp add: st flush_last_def True)
  next
    case ne: False
    have em: "emitted cs = runs cs"
      using ne by (simp add: emitted_def)
    have "add_all [] (map entry (runs cs))
        = add_all [] (map entry (butlast (runs cs) @ [last (runs cs)]))"
      by (simp only: bl)
    also have "\<dots> = add_word (add_all [] (map entry (butlast (runs cs))))
                       (Some (run_size (last (runs cs)))) (strip (run_text (last (runs cs))))"
      by simp
    finally show ?thesis
      by (simp add: st flush_last_def ne em)
  qed
qed


lemma map_of_add_word:
  "map_of (add_word d k w) k' =
     (if k' = k then Some ((case map_of d k of None \<Rightarrow> [] | Some ws \<Rightarrow> ws) @ [w])
      else map_of d k')"
  by (simp add: add_word_def Let_def map_of_map_entry update_conv' split: option.splits)

lemma distinct_add_word:
  "distinct (map fst d) \<Longrightarrow> distinct (map fst (add_word d k w))"
  by (simp add: add_word_def Let_def distinct_update distinct_map_entry)

lemma keys_add_word: "fst ` set (add_word d k w) = insert k (fst ` set d)"
proof (cases "map_of d k")
  case None
  then show ?thesis
    by (simp add: add_word_def Let_def dom_map_entry dom_update)
next
  case (Some ws)
  then have "k \<in> fst ` set d"
    by (metis map_of_eq_None_iff option.distinct(1))
  with Some show ?thesis
    by (auto simp: add_word_def Let_def dom_map_entry)
qed

lemma map_of_add_all:
  "map_of (add_all d es) k =
     (case map_of d k of
        None \<Rightarrow> (if map snd (filter (\<lambda>e. fst e = k) es) = [] then None
                 else Some (map snd (filter (\<lambda>e. fst e = k) es)))
      | Some ws0 \<Rightarrow> Some (ws0 @ map snd (filter (\<lambda>e. fst e = k) es)))"
proof (induction es arbitrary: d)
  case Nil
  then show ?case by (simp split: option.splits)
next
  case (Cons e es)
  obtain k1 w1 where e: "e = (k1, w1)" by (cases e)
  have "add_all d (e # es) = add_all (add_word d k1 w1) es"
    by (simp add: e)
  then show ?case
    by (simp add: Cons.IH map_of_add_word e split: option.splits)
qed

lemma distinct_add_all:
  "distinct (map fst d) \<Longrightarrow> distinct (map fst (add_all d es))"
proof (induction es arbitrary: d)
  case Nil
  then show ?case by simp
next
  case (Cons e es)
  obtain k1 w1 where e: "e = (k1, w1)" by (cases e)
  from Cons.prems have "distinct (map fst (add_word d k1 w1))"
    by (rule distinct_add_word)
  from Cons.IH[OF this] show ?case by (simp add: e)
qed

lemma keys_add_all: "fst ` set (add_all d es) = fst ` set d \<union> fst ` set es"
proof (induction es arbitrary: d)
  case Nil
  then show ?case by simp
next
  case (Cons e es)
  obtain k1 w1 where e: "e = (k1, w1)" by (cases e)
  have "fst ` set (add_all d (e # es)) = fst ` set (add_all (add_word d k1 w1) es)"
    by (simp add: e)
  also have "\<dots> = insert k1 (fst ` set d) \<union> fst ` set es"
    by (simp only: Cons.IH keys_add_word)
  finally show ?case by (simp add: e)
qed

lemma bucket_entries:
  "map snd (filter (\<lambda>e. fst e = Some s) (map entry rs))
     = map (\<lambda>r. strip (run_text r)) (filter (\<lambda>r. run_size r = s) rs)"
  by (induction rs) simp_all

lemma update_fresh: "k \<notin> fst ` set al \<Longrightarrow> AList.update k v al = al @ [(k, v)]"
  by (induction al) auto

lemma set_update_subset: "set (AList.update k v al) \<subseteq> insert (k, v) (set al)"
  by (induction al) auto

lemma rekey_foldl:
  "distinct (map (\<lambda>e. f (fst e)) d) \<Longrightarrow> \<forall>e \<in> set d. f (fst e) \<notin> fst ` set acc \<Longrightarrow>
     foldl (\<lambda>acc (k, ws). AList.update (f k) ws acc) acc d
       = acc @ map (\<lambda>(k, ws). (f k, ws)) d"
proof (induction d arbitrary: acc)
  case Nil
  then show ?case by simp
next
  case (Cons e d)
  obtain k ws where e: "e = (k, ws)" by (cases e)
  from Cons.prems(2) have fresh: "f k \<notin> fst ` set acc" by (simp add: e)
  let ?acc = "acc @ [(f k, ws)]"
  have u: "AList.update (f k) ws acc = ?acc"
    using fresh by (rule update_fresh)
  have d: "distinct (map (\<lambda>e. f (fst e)) d)"
    using Cons.prems(1) by simp
  have "\<forall>e' \<in> set d. f (fst e') \<notin> fst ` set ?acc"
  proof
    fix e' assume m: "e' \<in> set d"
    with Cons.prems(2) have "f (fst e') \<notin> fst ` set acc" by simp
    moreover have "f (fst e') \<noteq> f k"
    proof
      assume eq: "f (fst e') = f k"
      from m have "f (fst e') \<in> (\<lambda>e. f (fst e)) ` set d" by (rule imageI)
      moreover from Cons.prems(1) have "f k \<notin> (\<lambda>e. f (fst e)) ` set d" by (simp add: e)
      ultimately show False using eq by simp
    qed
    ultimately show "f (fst e') \<notin> fst ` set ?acc" by auto
  qed
  from Cons.IH[OF d this] show ?case by (simp add: e u)
qed

lemma rekey_values:
  "(k', ws) \<in> set (foldl (\<lambda>acc (k, ws). AList.update (f k) ws acc) acc d) \<Longrightarrow>
     (k', ws) \<in> set acc \<or> (\<exists>k. (k, ws) \<in> set d)"
proof (induction d arbitrary: acc)
  case Nil
  then show ?case by simp
next
  case (Cons e d)
  obtain k v where e: "e = (k, v)" by (cases e)
  from Cons.prems have "(k', ws) \<in> set (foldl (\<lambda>acc (k, ws). AList.update (f k) ws acc)
      (AList.update (f k) v acc) d)"
    by (simp add: e)
  from Cons.IH[OF this] show ?case
  proof
    assume "(k', ws) \<in> set (AList.update (f k) v acc)"
    with set_update_subset[of "f k" v acc] have "(k', ws) = (f k, v) \<or> (k', ws) \<in> set acc"
      by auto
    then show ?thesis by (auto simp: e)
  next
    assume "\<exists>k. (k, ws) \<in> set d"
    then show ?thesis by auto
  qed
qed

lemma map_of_rekeyed:
  "inj_on f (insert k (fst ` set d)) \<Longrightarrow>
     map_of (map (\<lambda>(k, ws). (f k, ws)) d) (f k) = map_of d k"
proof (induction d)
  case Nil
  then show ?case by simp
next
  case (Cons e d)
  obtain k1 v where e: "e = (k1, v)" by (cases e)
  from Cons.prems have inj: "inj_on f (insert k (fst ` set d))"
    by (rule inj_on_subset) auto
  from Cons.prems have "f k = f k1 \<longleftrightarrow> k = k1"
    by (auto simp: inj_on_def e)
  with Cons.IH[OF inj] show ?case by (auto simp: e)
qed

lemma size_key_inj: "inj fmt \<Longrightarrow> inj_on (size_key fmt) (range Some)"
  by (auto simp: inj_on_def size_key_def dest: injD)


lemma dropWhile_unchanged: "xs \<noteq> [] \<Longrightarrow> \<not> P (hd xs) \<Longrightarrow> dropWhile P xs = xs"
  by (cases xs) simp_all

lemma strip_ends:
  assumes ne: "strip s \<noteq> []"
  shows "\<not> isspace (hd (strip s)) \<and> \<not> isspace (last (strip s))"
proof -
  let ?u = "dropWhile isspace s"
  let ?v = "dropWhile isspace (rev ?u)"
  have s: "strip s = rev ?v" by (simp add: strip_def)
  from ne have v: "?v \<noteq> []" unfolding s by (metis rev.simps(1))
  then have hv: "\<not> isspace (hd ?v)" by (rule hd_dropWhile)
  from v have ru: "rev ?u \<noteq> []" by (metis dropWhile.simps(1))
  then have u: "?u \<noteq> []" by (metis rev.simps(1))
  then have hu: "\<not> isspace (hd ?u)" by (rule hd_dropWhile)
  have "takeWhile isspace (rev ?u) @ ?v = rev ?u" by (rule takeWhile_dropWhile_id)
  then have "last (rev ?u) = last ?v" using v by (metis last_appendR)
  moreover have "last (rev ?u) = hd ?u" using u by (simp add: last_rev)
  ultimately have lv: "last ?v = hd ?u" by simp
  have "hd (strip s) = last ?v" unfolding s using v by (simp add: hd_rev)
  moreover have "last (strip s) = hd ?v" unfolding s using v by (simp add: last_rev)
  ultimately show ?thesis using hv hu lv by simp
qed

lemma strip_fixed:
  assumes "t = [] \<or> (\<not> isspace (hd t) \<and> \<not> isspace (last t))"
  shows "strip t = t"
proof (cases "t = []")
  case True
  then show ?thesis by (simp add: strip_def)
next
  case False
  with assms have h: "\<not> isspace (hd t)" and l: "\<not> isspace (last t)" by simp_all
  from False h have 1: "dropWhile isspace t = t" by (rule dropWhile_unchanged)
  from False have r: "rev t \<noteq> []" by simp
  from False l have "\<not> isspace (hd (rev t))" by (simp add: hd_rev)
  with r have 2: "dropWhile isspace (rev t) = rev t" by (rule dropWhile_unchanged)
  show ?thesis by (simp add: strip_def 1 2)
qed

lemma strip_strip: "strip (strip s) = strip s"
  using strip_ends[of s] by (intro strip_fixed) blast

lemma strip_all_space:
  assumes "\<forall>c \<in> set s. isspace c"
  shows "strip s = []"
proof -
  from assms have d: "dropWhile isspace s = []" by simp
  show ?thesis unfolding strip_def d by simp
qed

lemma wwfs_dict:
  "words_with_font_sizes (page_result fmt i pg)
     = rekey fmt (add_all [] (map entry (emitted (page_chars pg))))"
proof -
  obtain d cw cfs t where
    st: "flush_last (char_loop (page_chars pg) ([], [], None, page_extract_text pg)) = (d, cw, cfs, t)"
    by (metis prod_cases4)
  from flush_char_loop[of "page_chars pg" "page_extract_text pg"] st
  have "d = add_all [] (map entry (emitted (page_chars pg)))" by simp
  then show ?thesis by (simp add: page_result_def Let_def st)
qed

lemma dict_keys:
  "fst ` set (add_all [] (map entry rs)) = (\<lambda>r. Some (run_size r)) ` set rs"
  by (simp add: keys_add_all image_image)

lemma dict_distinct: "distinct (map fst (add_all [] (map entry rs)))"
  by (rule distinct_add_all) simp

lemma dict_lookup:
  "map_of (add_all [] (map entry rs)) (Some s) =
     (if filter (\<lambda>r. run_size r = s) rs = [] then None
      else Some (map (\<lambda>r. strip (run_text r)) (filter (\<lambda>r. run_size r = s) rs)))"
  by (simp add: map_of_add_all bucket_entries)

lemma rekey_keys:
  "fst ` set (foldl (\<lambda>acc (k, ws). AList.update (f k) ws acc) acc d)
     = fst ` set acc \<union> (\<lambda>e. f (fst e)) ` set d"
proof (induction d arbitrary: acc)
  case Nil
  then show ?case by simp
next
  case (Cons e d)
  obtain k v where e: "e = (k, v)" by (cases e)
  have "fst ` set (foldl (\<lambda>acc (k, ws). AList.update (f k) ws acc) acc (e # d))
      = fst ` set (AList.update (f k) v acc) \<union> (\<lambda>e. f (fst e)) ` set d"
    by (simp add: e Cons.IH)
  also have "\<dots> = fst ` set acc \<union> (\<lambda>e. f (fst e)) ` set (e # d)"
    by (auto simp: dom_update e)
  finally show ?case .
qed

lemma rekey_dict:
  assumes "inj fmt"
  shows "rekey fmt (add_all [] (map entry rs))
     = map (\<lambda>(k, ws). (size_key fmt k, ws)) (add_all [] (map entry rs))"
proof -
  let ?d = "add_all [] (map entry rs)"
  have "fst ` set ?d \<subseteq> range Some" by (auto simp: dict_keys)
  with size_key_inj[OF assms] have "inj_on (size_key fmt) (set (map fst ?d))"
    by (simp add: inj_on_subset)
  with dict_distinct[of rs] have "distinct (map (size_key fmt) (map fst ?d))"
    by (simp only: distinct_map simp_thms)
  then have "distinct (map (\<lambda>e. size_key fmt (fst e)) ?d)"
    by (simp add: comp_def)
  from rekey_foldl[OF this, of "[]"] show ?thesis
    by (simp add: rekey_def)
qed

lemma bucket_lookup:
  assumes "inj fmt"
  shows "map_of (words_with_font_sizes (page_result fmt i pg)) (''Size: '' @ fmt s) =
     (if bucket (page_chars pg) s = [] then None else Some (bucket (page_chars pg) s))"
proof -
  let ?rs = "emitted (page_chars pg)"
  let ?d = "add_all [] (map entry ?rs)"
  have k: "size_key fmt (Some s) = ''Size: '' @ fmt s" by (simp add: size_key_def)
  have "insert (Some s) (fst ` set ?d) \<subseteq> range Some" by (auto simp: dict_keys)
  with size_key_inj[OF assms] have "inj_on (size_key fmt) (insert (Some s) (fst ` set ?d))"
    by (rule inj_on_subset)
  from map_of_rekeyed[OF this]
  have "map_of (words_with_font_sizes (page_result fmt i pg)) (size_key fmt (Some s))
      = map_of ?d (Some s)"
    by (simp only: wwfs_dict rekey_dict[OF assms])
  then show ?thesis
    unfolding k by (simp add: dict_lookup bucket_def)
qed

lemma wwfs_keys:
  "fst ` set (words_with_font_sizes (page_result fmt i pg))
     = (\<lambda>r. ''Size: '' @ fmt (run_size r)) ` set (emitted (page_chars pg))"
proof -
  let ?rs = "emitted (page_chars pg)"
  have "fst ` set (words_with_font_sizes (page_result fmt i pg))
      = (\<lambda>e. size_key fmt (fst e)) ` set (add_all [] (map entry ?rs))"
    by (simp add: wwfs_dict rekey_def rekey_keys)
  also have "\<dots> = size_key fmt ` (fst ` set (add_all [] (map entry ?rs)))"
    by (simp add: image_image)
  also have "\<dots> = (\<lambda>r. ''Size: '' @ fmt (run_size r)) ` set ?rs"
    by (simp add: dict_keys image_image size_key_def)
  finally show ?thesis .
qed

lemma wwfs_words:
  assumes "(k, ws) \<in> set (words_with_font_sizes (page_result fmt i pg))" and "w \<in> set ws"
  shows "\<exists>r \<in> set (emitted (page_chars pg)). w = strip (run_text r)"
proof -
  let ?rs = "emitted (page_chars pg)"
  let ?d = "add_all [] (map entry ?rs)"
  from assms(1) have "(k, ws) \<in> set (foldl (\<lambda>acc (k, ws). AList.update (size_key fmt k) ws acc) [] ?d)"
    by (simp add: wwfs_dict rekey_def)
  from rekey_values[OF this] obtain k0 where "(k0, ws) \<in> set ?d" by auto
  with dict_distinct[of ?rs] have m: "map_of ?d k0 = Some ws" by simp
  have "ws = map snd (filter (\<lambda>e. fst e = k0) (map entry ?rs))"
    using m by (simp add: map_of_add_all split: if_splits)
  with assms(2) obtain e where "e \<in> set (map entry ?rs)" "w = snd e" by auto
  then show ?thesis by auto
qed

lemma emitted_nonempty_text:
  assumes "r \<in> set (runs cs)" and "run_text r \<noteq> []"
  shows "r \<in> set (emitted cs)"
proof (cases "runs cs \<noteq> [] \<and> run_text (last (runs cs)) = []")
  case False
  with assms(1) show ?thesis by (auto simp: emitted_def)
next
  case True
  then have "butlast (runs cs) @ [last (runs cs)] = runs cs" by simp
  then have "set (runs cs) = set (butlast (runs cs)) \<union> {last (runs cs)}"
    by (metis set_append list.set(1) list.set(2))
  with assms True have "r \<in> set (butlast (runs cs))" by auto
  with True show ?thesis by (simp add: emitted_def)
qed

subsection \<open>The sample run\<close>

lemma dirname_sample_json: "dirname ''output/layout_results1.json'' = ''output''"
  by (simp add: dirname_def)

lemma dirname_sample_pdf: "dirname ''output/annotated_file.pdf'' = ''output''"
  by (simp add: dirname_def)

lemma parents_output: "parents ''output'' = []"
  by (simp add: parents_def upt_rec)

lemma basename_sample_json: "basename ''output/layout_results1.json'' = ''layout_results1.json''"
  by (simp add: basename_def)

lemma basename_sample_pdf: "basename ''output/annotated_file.pdf'' = ''annotated_file.pdf''"
  by (simp add: basename_def)

lemma sample_run_ok: "fst (sample_run sample_pdf) = None"
  unfolding sample_run_def
  by (rule detect_layout_runs[where pdf = sample_pdf and
        ?w1.0 = "(sample_world sample_pdf)\<lparr>dirs := {''output''}, trace := [MakeDirs ''output'']\<rparr>"])
     (simp_all add: sample_world_def sample_pdf_def dirname_sample_json dirname_sample_pdf
        basename_sample_json basename_sample_pdf parents_output makedirs_def dir_exists_def
        can_write_def)

lemma sample_run_eq:
  "detect_layout (\<lambda>s. s) ''Fraud_Report_2022.pdf'' ''output/annotated_file.pdf''
     ''output/layout_results1.json'' (sample_world sample_pdf)
   = (None, snd (sample_run sample_pdf))"
  using sample_run_ok by (simp add: sample_run_def prod_eq_iff)

lemma sample_world_input:
  "files (sample_world pdf) ''Fraud_Report_2022.pdf'' = Some (PdfFile pdf)"
  by (simp add: sample_world_def)

lemma faulty_run_eq:
  "detect_layout (\<lambda>s. s) ''Fraud_Report_2022.pdf'' ''output/annotated_file.pdf''
     ''output/layout_results1.json'' (sample_world faulty_pdf)
   = (fst (sample_run faulty_pdf), snd (sample_run faulty_pdf))"
  by (simp add: sample_run_def)

lemma sample_trace:
  "trace (snd (sample_run sample_pdf)) =
     [MakeDirs ''output'', PrintProcessing 1, PrintProcessing 2, PrintProcessing 3,
      SavePdf ''output/annotated_file.pdf'', PrintAnnotated ''output/annotated_file.pdf'',
      WriteJson ''output/layout_results1.json'', PrintResults ''output/layout_results1.json'']"
proof -
  have "[1..<Suc 3] = [1, 2, 3]" by code_simp
  moreover have "length sample_pdf = 3" by (simp add: sample_pdf_def)
  ultimately show ?thesis
    using detect_layout_success[OF sample_run_eq sample_world_input]
    by (auto simp: dirname_sample_json sample_world_def)
qed


lemma runs_page_mixed:
  "runs (page_chars page_mixed) =
     [[sample_char ''a'' ''12'', sample_char '' '' ''12''], [sample_char ''b'' ''10'']]"
  by (simp add: page_mixed_def sample_char_def)

lemma wwfs_page_mixed:
  "words_with_font_sizes (page_result (\<lambda>s. s) 0 page_mixed)
     = [(''Size: 12'', [''a'']), (''Size: 10'', [''b''])]"
  by (simp add: wwfs_dict emitted_def runs_page_mixed run_text_def run_size_def sample_char_def
      strip_def isspace_def add_word_def rekey_def size_key_def)

section \<open>The claims\<close>

text \<open>
  C1. The claim: the page result stored in the report holds the page's full extracted
  text, the string of line 25, under \<open>"text"\<close>. The code stores the variable \<open>text\<close>,
  which the character loop has overwritten (line 41) on every page that has a character:
  on the page with the text \<open>Hi\<close> the field is \<open>i\<close>, the text of the last character.
\<close>

theorem text_field_holds_last_char:
  "page_extract_text page_hi = ''Hi'' \<and> text_field (page_result (\<lambda>s. s) 0 page_hi) = ''i''"
  by (simp add: page_result_text page_hi_def sample_char_def)

text \<open>
  C2. The claim: the grouping is a partition of the characters into maximal contiguous runs
  of equal font size, runs in extraction order within each bucket, no character dropped or
  duplicated. Each run is stripped of leading and trailing whitespace before it is added
  (lines 51 and 61): on the page with \<open>a\<close> and a space of size 12 and \<open>b\<close> of size 10
  the output holds \<open>a\<close> and \<open>b\<close>, and the space is in no word.
\<close>

theorem space_dropped_counterexample:
  "concat (map char_text (page_chars page_mixed)) = ''a b'' \<and>
   words_with_font_sizes (page_result (\<lambda>s. s) 0 page_mixed)
     = [(''Size: 12'', [''a'']), (''Size: 10'', [''b''])] \<and>
   mset (concat (concat (map snd (words_with_font_sizes (page_result (\<lambda>s. s) 0 page_mixed)))))
     \<noteq> mset (concat (map char_text (page_chars page_mixed)))"
proof -
  have t: "concat (map char_text (page_chars page_mixed)) = ''a b''"
    by (simp add: page_mixed_def sample_char_def)
  have "size (mset ''ab'') \<noteq> size (mset ''a b'')" by simp
  then have "mset ''ab'' \<noteq> mset ''a b''" by metis
  with t wwfs_page_mixed show ?thesis by simp
qed

text \<open>
  C2, amended. The maximal contiguous runs of equal font size partition the characters:
  concatenated they are the character sequence, none is empty, each has one size and
  neighbours differ in size. The output has one bucket for every size of an emitted run
  and no other; when formatting does not map two sizes to one key, the bucket of a size
  lists, in extraction order, the stripped text of each emitted run of that size. All
  runs are emitted, but for a last run whose text is empty.
\<close>

theorem grouping_is_stripped_runs:
  "concat (runs (page_chars pg)) = page_chars pg \<and>
   (\<forall>r \<in> set (runs (page_chars pg)). r \<noteq> [] \<and> (\<forall>c \<in> set r. char_size c = run_size r)) \<and>
   successively (\<lambda>r1 r2. run_size r1 \<noteq> run_size r2) (runs (page_chars pg)) \<and>
   fst ` set (words_with_font_sizes (page_result fmt i pg))
     = (\<lambda>r. ''Size: '' @ fmt (run_size r)) ` set (emitted (page_chars pg)) \<and>
   (inj fmt \<longrightarrow>
      (\<forall>s. map_of (words_with_font_sizes (page_result fmt i pg)) (''Size: '' @ fmt s) =
         (if bucket (page_chars pg) s = [] then None else Some (bucket (page_chars pg) s))))"
proof (intro conjI)
  show "concat (runs (page_chars pg)) = page_chars pg"
    by (rule concat_runs)
  show "\<forall>r \<in> set (runs (page_chars pg)). r \<noteq> [] \<and> (\<forall>c \<in> set r. char_size c = run_size r)"
  proof
    fix r assume "r \<in> set (runs (page_chars pg))"
    then show "r \<noteq> [] \<and> (\<forall>c \<in> set r. char_size c = run_size r)"
      by (rule runs_uniform)
  qed
  show "successively (\<lambda>r1 r2. run_size r1 \<noteq> run_size r2) (runs (page_chars pg))"
    by (rule runs_maximal)
  show "fst ` set (words_with_font_sizes (page_result fmt i pg))
     = (\<lambda>r. ''Size: '' @ fmt (run_size r)) ` set (emitted (page_chars pg))"
    by (rule wwfs_keys)
  show "inj fmt \<longrightarrow>
      (\<forall>s. map_of (words_with_font_sizes (page_result fmt i pg)) (''Size: '' @ fmt s) =
         (if bucket (page_chars pg) s = [] then None else Some (bucket (page_chars pg) s)))"
  proof (intro impI allI)
    fix s assume "inj fmt"
    then show "map_of (words_with_font_sizes (page_result fmt i pg)) (''Size: '' @ fmt s) =
         (if bucket (page_chars pg) s = [] then None else Some (bucket (page_chars pg) s))"
      by (rule bucket_lookup)
  qed
qed

theorem grouping_is_stripped_runs_witness:
  "inj (\<lambda>s :: string. s) \<and>
   concat (runs (page_chars page_mixed)) = page_chars page_mixed \<and>
   successively (\<lambda>r1 r2. run_size r1 \<noteq> run_size r2) (runs (page_chars page_mixed)) \<and>
   map_of (words_with_font_sizes (page_result (\<lambda>s. s) 0 page_mixed)) ''Size: 12'' = Some [''a''] \<and>
   map_of (words_with_font_sizes (page_result (\<lambda>s. s) 0 page_mixed)) ''Size: 10'' = Some [''b''] \<and>
   map_of (words_with_font_sizes (page_result (\<lambda>s. s) 0 page_mixed)) ''Size: 11'' = None"
proof -
  have i: "inj (\<lambda>s :: string. s)" by simp
  have b: "bucket (page_chars page_mixed) ''12'' = [''a'']"
    "bucket (page_chars page_mixed) ''10'' = [''b'']"
    "bucket (page_chars page_mixed) ''11'' = []"
    by (simp_all add: bucket_def emitted_def runs_page_mixed run_text_def run_size_def
        sample_char_def strip_def isspace_def)
  note g = grouping_is_stripped_runs[of page_mixed "\<lambda>s. s" 0]
  from g have c: "concat (runs (page_chars page_mixed)) = page_chars page_mixed"
    by (rule conjunct1)
  from g have m: "successively (\<lambda>r1 r2. run_size r1 \<noteq> run_size r2) (runs (page_chars page_mixed))"
    by (elim conjE)
  from g i have l: "map_of (words_with_font_sizes (page_result (\<lambda>s. s) 0 page_mixed)) (''Size: '' @ s) =
         (if bucket (page_chars page_mixed) s = [] then None
          else Some (bucket (page_chars page_mixed) s))" for s
    by (elim conjE) simp
  from c m l[of "''12''"] l[of "''10''"] l[of "''11''"] b i
  show ?thesis by simp
qed

text \<open>
  C3. When the run ends without an exception on an input file of \<open>N\<close> pages, the report
  written at the JSON path has \<open>N\<close> page entries and their page numbers are
  \<open>1, ..., N\<close> in this order.
\<close>

theorem report_page_numbers:
  assumes "detect_layout fmt inp outp outj w = (None, w')"
    and "files w inp = Some (PdfFile pdf)"
  shows "\<exists>r. files w' outj = Some (JsonFile r) \<and> length (pages r) = length pdf \<and>
           map page_number (pages r) = [1..<Suc (length pdf)]"
proof -
  from detect_layout_success[OF assms] obtain rs doc where
    len: "length rs = length pdf" and
    each: "\<And>k. k < length pdf \<Longrightarrow> \<exists>pg. rs ! k = page_result fmt k pg" and
    f: "files w' = (files w)(outp \<mapsto> PdfFile (saved_pdf pdf doc),
                          outj \<mapsto> JsonFile \<lparr>pdf_path = inp, pages = rs\<rparr>)"
    by blast
  have "map page_number rs = [1..<Suc (length pdf)]"
  proof (rule nth_equalityI)
    show "length (map page_number rs) = length [1..<Suc (length pdf)]"
      using len by (simp del: upt_Suc)
  next
    fix k assume "k < length (map page_number rs)"
    then have k: "k < length pdf" using len by simp
    from each[OF k] have "page_number (rs ! k) = k + 1"
      by (auto simp: page_result_fields)
    with k len show "map page_number rs ! k = [1..<Suc (length pdf)] ! k"
      by (simp add: nth_upt del: upt_Suc)
  qed
  with len f show ?thesis by simp
qed

theorem report_page_numbers_witness:
  "fst (sample_run sample_pdf) = None \<and>
   (\<exists>r. files (snd (sample_run sample_pdf)) ''output/layout_results1.json'' = Some (JsonFile r) \<and>
      length (pages r) = 3 \<and> map page_number (pages r) = [1, 2, 3])"
proof -
  from report_page_numbers[OF sample_run_eq sample_world_input] obtain r where
    r: "files (snd (sample_run sample_pdf)) ''output/layout_results1.json'' = Some (JsonFile r)"
      "length (pages r) = length sample_pdf"
      "map page_number (pages r) = [1..<Suc (length sample_pdf)]"
    by blast
  have n: "length sample_pdf = 3"
    by (simp add: sample_pdf_def)
  have "[1..<Suc 3] = [1, 2, 3]"
    by code_simp
  with r n sample_run_ok show ?thesis by simp
qed

text \<open>
  C4. The claim: on a page whose extracted text is empty, title and text are both the
  empty string and the run goes on. The title is empty, but the field \<open>"text"\<close> holds
  the text of the page's last character when the page has one (the overwritten variable
  of C1): on the page whose only character is a space it is that space.
\<close>

theorem blank_page_text_field:
  "page_extract_text page_blank = [] \<and>
   title (page_result (\<lambda>s. s) 0 page_blank) = [] \<and>
   text_field (page_result (\<lambda>s. s) 0 page_blank) = '' ''"
  by (simp add: page_result_text page_result_fields page_blank_def sample_char_def strip_def)

text \<open>
  C5. When the run ends without an exception and the two output paths differ, the file
  saved at the PDF path has as many pages as the input, and the rectangles the run drew
  on a page are as many as \<open>images_count\<close> of that page's result, plus the tables
  that \<open>find_tables\<close> returned (its own call, not the tables of the report), plus the
  page's characters.
\<close>

theorem annotated_rectangle_counts:
  assumes "detect_layout fmt inp outp outj w = (None, w')"
    and "files w inp = Some (PdfFile pdf)"
    and "outp \<noteq> outj"
  shows "\<exists>pdf' r. files w' outp = Some (PdfFile pdf') \<and> files w' outj = Some (JsonFile r) \<and>
           length pdf' = length pdf \<and>
           (\<forall>k<length pdf. \<exists>pg new. extraction (pdf ! k) = Inr pg \<and>
               drawings (pdf' ! k) = drawings (pdf ! k) @ new \<and>
               length new = images_count (pages r ! k) + length (page_find_tables pg)
                              + length (page_chars pg))"
proof -
  from detect_layout_success[OF assms(1,2)] obtain rs doc where
    len: "length rs = length pdf" "length doc = length pdf" and
    each: "\<And>k. k < length pdf \<Longrightarrow> \<exists>pg. extraction (pdf ! k) = Inr pg \<and>
              rs ! k = page_result fmt k pg \<and> doc ! k = annotate pg (drawings (pdf ! k))" and
    f: "files w' = (files w)(outp \<mapsto> PdfFile (saved_pdf pdf doc),
                          outj \<mapsto> JsonFile \<lparr>pdf_path = inp, pages = rs\<rparr>)"
    by blast
  let ?pdf' = "saved_pdf pdf doc"
  let ?r = "\<lparr>pdf_path = inp, pages = rs\<rparr>"
  have 1: "files w' outp = Some (PdfFile ?pdf')" "files w' outj = Some (JsonFile ?r)"
    using f assms(3) by simp_all
  have 2: "length ?pdf' = length pdf"
    using len by (simp add: saved_pdf_length)
  have 3: "\<exists>pg new. extraction (pdf ! k) = Inr pg \<and>
               drawings (?pdf' ! k) = drawings (pdf ! k) @ new \<and>
               length new = images_count (pages ?r ! k) + length (page_find_tables pg)
                              + length (page_chars pg)"
    if k: "k < length pdf" for k
  proof -
    from each[OF k] obtain pg where pg: "extraction (pdf ! k) = Inr pg"
      "rs ! k = page_result fmt k pg" "doc ! k = annotate pg (drawings (pdf ! k))"
      by blast
    let ?new = "map (\<lambda>image. (image_x0 image, image_top image, image_x1 image, image_bottom image))
                  (page_images pg)
                @ page_find_tables pg
                @ map (\<lambda>c. (char_x0 c, char_top c, char_x1 c, char_bottom c)) (page_chars pg)"
    have "drawings (?pdf' ! k) = drawings (pdf ! k) @ ?new"
      using pg(3) len k by (simp add: saved_pdf_nth annotate_eq)
    moreover have "length ?new = images_count (pages ?r ! k) + length (page_find_tables pg)
                              + length (page_chars pg)"
      using pg(2) by (simp add: page_result_fields)
    ultimately show ?thesis using pg(1) by blast
  qed
  from 1 2 3 show ?thesis by blast
qed

theorem annotated_rectangle_counts_witness:
  "fst (sample_run sample_pdf) = None \<and>
   (\<exists>pdf' r. files (snd (sample_run sample_pdf)) ''output/annotated_file.pdf'' = Some (PdfFile pdf') \<and>
      files (snd (sample_run sample_pdf)) ''output/layout_results1.json'' = Some (JsonFile r) \<and>
      length pdf' = 3 \<and>
      length (drawings (pdf' ! 1)) = images_count (pages r ! 1) + 1 + 3)"
proof -
  have ne: "''output/annotated_file.pdf'' \<noteq> ''output/layout_results1.json''" by simp
  from annotated_rectangle_counts[OF sample_run_eq sample_world_input ne] obtain pdf' r where
    f: "files (snd (sample_run sample_pdf)) ''output/annotated_file.pdf'' = Some (PdfFile pdf')"
       "files (snd (sample_run sample_pdf)) ''output/layout_results1.json'' = Some (JsonFile r)"
       "length pdf' = length sample_pdf" and
    each: "\<And>k. k < length sample_pdf \<Longrightarrow> \<exists>pg new. extraction (sample_pdf ! k) = Inr pg \<and>
               drawings (pdf' ! k) = drawings (sample_pdf ! k) @ new \<and>
               length new = images_count (pages r ! k) + length (page_find_tables pg)
                              + length (page_chars pg)"
    by blast
  have "1 < length sample_pdf" by (simp add: sample_pdf_def)
  from each[OF this] have "length (drawings (pdf' ! 1)) = images_count (pages r ! 1) + 1 + 3"
    by (auto simp: sample_pdf_def page_mixed_def)
  moreover have "length sample_pdf = 3" by (simp add: sample_pdf_def)
  ultimately show ?thesis using f sample_run_ok by auto
qed

text \<open>
  C6. The claim: the JSON path's parent directory is created if absent before any extraction,
  and the PDF path's parent directory is never created by the program. In the call of the
  entry point both paths have the parent \<open>output\<close>: it does not exist before the run
  and exists after it, so the run creates the PDF path's parent directory.
\<close>

theorem pdf_parent_created_counterexample:
  "dirname ''output/annotated_file.pdf'' \<notin> dirs (sample_world sample_pdf) \<and>
   dirname ''output/annotated_file.pdf'' \<in> dirs (snd (sample_run sample_pdf))"
proof -
  from detect_layout_success[OF sample_run_eq sample_world_input]
  have "dirs (snd (sample_run sample_pdf)) = dirs (sample_world sample_pdf)
          \<union> set (dirname ''output/layout_results1.json'' # parents (dirname ''output/layout_results1.json''))"
    by blast
  then show ?thesis
    by (simp add: dirname_sample_json dirname_sample_pdf sample_world_def)
qed

text \<open>
  C6, amended. Every call starts with \<open>os.makedirs\<close> on the JSON path's parent
  directory: either that call raises and the run ends there with nothing done, or the
  directory exists from then on and the call is the first effect of the run, before any
  page is processed. It is the only directory creation of the run: the directories after
  the run are those before it, the JSON path's parent and that parent's ancestors. So
  the PDF path's parent directory exists after the run only if it existed before or is one
  of these.
\<close>

theorem only_json_parent_created:
  assumes "detect_layout fmt inp outp outj w = (r, w')"
  shows "(\<exists>e. makedirs (dirname outj) w = Inl e \<and> r = Some e \<and> w' = w) \<or>
         (dirname outj \<in> dirs w' \<and>
          (\<exists>evs. trace w' = trace w @ MakeDirs (dirname outj) # evs \<and> (\<forall>p. MakeDirs p \<notin> set evs)) \<and>
          dirs w' = dirs w \<union> set (dirname outj # parents (dirname outj)) \<and>
          (dirname outp \<in> dirs w' \<longrightarrow>
             dirname outp \<in> dirs w \<or> dirname outp \<in> set (dirname outj # parents (dirname outj))))"
proof -
  from detect_layout_shape[OF assms] show ?thesis
  proof (elim disjE exE conjE)
    fix e assume "makedirs (dirname outj) w = Inl e" "r = Some e" "w' = w"
    then show ?thesis by blast
  next
    fix n
    assume d: "dirs w' = dirs w \<union> set (dirname outj # parents (dirname outj))"
      and t: "trace w' = trace w @ MakeDirs (dirname outj) # map PrintProcessing [1..<Suc n]"
    have "\<forall>p. MakeDirs p \<notin> set (map PrintProcessing [1..<Suc n])" by auto
    with d t show ?thesis by auto
  next
    fix n
    assume d: "dirs w' = dirs w \<union> set (dirname outj # parents (dirname outj))"
      and t: "trace w' = trace w @ MakeDirs (dirname outj) # map PrintProcessing [1..<Suc n]
                @ [SavePdf outp, PrintAnnotated outp]"
    have "\<forall>p. MakeDirs p \<notin> set (map PrintProcessing [1..<Suc n] @ [SavePdf outp, PrintAnnotated outp])"
      by auto
    with d t show ?thesis by auto
  next
    fix n
    assume d: "dirs w' = dirs w \<union> set (dirname outj # parents (dirname outj))"
      and t: "trace w' = trace w @ MakeDirs (dirname outj) # map PrintProcessing [1..<Suc n]
                @ [SavePdf outp, PrintAnnotated outp, WriteJson outj, PrintResults outj]"
    have "\<forall>p. MakeDirs p \<notin> set (map PrintProcessing [1..<Suc n]
             @ [SavePdf outp, PrintAnnotated outp, WriteJson outj, PrintResults outj])"
      by auto
    with d t show ?thesis by auto
  qed
qed

theorem only_json_parent_created_witness:
  "''output'' \<in> dirs (snd (sample_run sample_pdf)) \<and>
   (\<exists>evs. trace (snd (sample_run sample_pdf)) = MakeDirs ''output'' # evs \<and>
      (\<forall>p. MakeDirs p \<notin> set evs)) \<and>
   dirs (snd (sample_run sample_pdf)) = {''output''}"
  using only_json_parent_created[OF sample_run_eq]
  by (auto simp: dirname_sample_json parents_output sample_world_def)

text \<open>
  C7. If the run writes the JSON report, it has raised nothing, every page of the input
  has been processed and the annotated PDF has been saved before: the effects of the run
  are the directory creation, one progress line per page, the save and the write, in this
  order. If pdfplumber raises on some page \<open>k\<close>, the run raises, writes no file at all
  and in particular no JSON report. A run that raises, for whatever reason, leaves no JSON
  file that was not there before.
\<close>

theorem json_written_last:
  assumes run: "detect_layout fmt inp outp outj w = (r, w')"
    and tr: "trace w' = trace w @ evs"
  shows "(WriteJson outj \<in> set evs \<longrightarrow>
            r = None \<and>
            (\<exists>pdf. files w inp = Some (PdfFile pdf) \<and>
               evs = MakeDirs (dirname outj) # map PrintProcessing [1..<Suc (length pdf)]
                       @ [SavePdf outp, PrintAnnotated outp, WriteJson outj, PrintResults outj])) \<and>
         (\<forall>pdf k e. files w inp = Some (PdfFile pdf) \<and> k < length pdf \<and>
              extraction (pdf ! k) = Inl e \<longrightarrow>
            r \<noteq> None \<and> files w' = files w \<and> WriteJson outj \<notin> set evs) \<and>
         (r \<noteq> None \<longrightarrow>
            (\<forall>p j. files w' p = Some (JsonFile j) \<longrightarrow> files w p = Some (JsonFile j)))"
proof -
  have none: "r = None" if wj: "WriteJson outj \<in> set evs"
  proof (rule ccontr)
    assume r: "r \<noteq> None"
    from detect_layout_shape[OF run] r consider
        "evs = []"
      | n where "evs = MakeDirs (dirname outj) # map PrintProcessing [1..<Suc n]"
      | n where "evs = MakeDirs (dirname outj) # map PrintProcessing [1..<Suc n]
                        @ [SavePdf outp, PrintAnnotated outp]"
      using tr by auto
    then show False using wj by cases auto
  qed
  have a: "\<exists>pdf. files w inp = Some (PdfFile pdf) \<and>
               evs = MakeDirs (dirname outj) # map PrintProcessing [1..<Suc (length pdf)]
                       @ [SavePdf outp, PrintAnnotated outp, WriteJson outj, PrintResults outj]"
    if r: "r = None"
  proof -
    from run r have run': "detect_layout fmt inp outp outj w = (None, w')" by simp
    from detect_layout_input[OF run'] obtain pdf where inp: "files w inp = Some (PdfFile pdf)" ..
    from detect_layout_success[OF run' inp] tr inp show ?thesis by auto
  qed
  have b: "r \<noteq> None \<and> files w' = files w \<and> WriteJson outj \<notin> set evs"
    if "files w inp = Some (PdfFile pdf)" "k < length pdf" "extraction (pdf ! k) = Inl e"
    for pdf k e
    using detect_layout_page_fault[OF run that] none by blast
  have c: "files w p = Some (JsonFile j)"
    if r: "r \<noteq> None" and j: "files w' p = Some (JsonFile j)" for p j
  proof -
    from detect_layout_shape[OF run] r
    have "files w' = files w \<or> (\<exists>c. files w' = (files w)(outp \<mapsto> PdfFile c))"
      by auto
    with j show ?thesis by (auto split: if_splits)
  qed
  from none a b c show ?thesis by blast
qed

theorem json_written_last_witness:
  "WriteJson ''output/layout_results1.json'' \<in> set (trace (snd (sample_run sample_pdf))) \<and>
   fst (sample_run sample_pdf) = None \<and>
   extraction (faulty_pdf ! 1) = Inl LibraryError \<and>
   fst (sample_run faulty_pdf) \<noteq> None \<and>
   files (snd (sample_run faulty_pdf)) = files (sample_world faulty_pdf) \<and>
   WriteJson ''output/layout_results1.json'' \<notin> set (trace (snd (sample_run faulty_pdf)))"
proof -
  have t0: "trace (sample_world pdf) = []" for pdf by (simp add: sample_world_def)
  have 1: "trace (snd (sample_run sample_pdf)) = trace (sample_world sample_pdf) @ trace (snd (sample_run sample_pdf))"
    by (simp add: t0)
  have 2: "trace (snd (sample_run faulty_pdf)) = trace (sample_world faulty_pdf) @ trace (snd (sample_run faulty_pdf))"
    by (simp add: t0)
  have k: "1 < length faulty_pdf" "extraction (faulty_pdf ! 1) = Inl LibraryError"
    by (simp_all add: faulty_pdf_def)
  have wj: "WriteJson ''output/layout_results1.json'' \<in> set (trace (snd (sample_run sample_pdf)))"
    by (simp add: sample_trace)
  from json_written_last[OF sample_run_eq 1] wj
  have a: "fst (sample_run sample_pdf) = None" using sample_run_ok by simp
  from json_written_last[OF faulty_run_eq 2] sample_world_input[of faulty_pdf] k
  have b: "fst (sample_run faulty_pdf) \<noteq> None \<and>
     files (snd (sample_run faulty_pdf)) = files (sample_world faulty_pdf) \<and>
     WriteJson ''output/layout_results1.json'' \<notin> set (trace (snd (sample_run faulty_pdf)))"
    by blast
  from wj a b k show ?thesis by simp
qed




text \<open>
  C10. Every word in every bucket of \<open>words_with_font_sizes\<close> is its own strip: it is
  empty or neither starts nor ends with whitespace. A run whose text is not empty and all
  whitespace is not left out: its bucket holds the empty string for it (the bucket is
  found by its key when formatting does not map two sizes to one key).
\<close>

theorem words_are_stripped:
  "(\<forall>kws \<in> set (words_with_font_sizes (page_result fmt i pg)). \<forall>w \<in> set (snd kws).
      strip w = w \<and> (w \<noteq> [] \<longrightarrow> \<not> isspace (hd w) \<and> \<not> isspace (last w))) \<and>
   (inj fmt \<longrightarrow>
      (\<forall>r \<in> set (runs (page_chars pg)).
         run_text r \<noteq> [] \<and> (\<forall>c \<in> set (run_text r). isspace c) \<longrightarrow>
         (\<exists>ws. map_of (words_with_font_sizes (page_result fmt i pg))
                  (''Size: '' @ fmt (run_size r)) = Some ws \<and> [] \<in> set ws)))"
proof (intro conjI ballI impI)
  fix kws w
  assume k: "kws \<in> set (words_with_font_sizes (page_result fmt i pg))" and w: "w \<in> set (snd kws)"
  from k have "(fst kws, snd kws) \<in> set (words_with_font_sizes (page_result fmt i pg))"
    by simp
  from wwfs_words[OF this w] obtain r where
    "r \<in> set (emitted (page_chars pg))" and r: "w = strip (run_text r)"
    by (rule bexE)
  show "strip w = w" unfolding r by (rule strip_strip)
  assume "w \<noteq> []"
  then have "strip (run_text r) \<noteq> []" unfolding r .
  from strip_ends[OF this] show "\<not> isspace (hd w)" "\<not> isspace (last w)"
    unfolding r by (rule conjunct1, rule conjunct2)
next
  fix r
  assume inj: "inj fmt" and r: "r \<in> set (runs (page_chars pg))"
    and t: "run_text r \<noteq> [] \<and> (\<forall>c \<in> set (run_text r). isspace c)"
  from r t have "r \<in> set (emitted (page_chars pg))"
    by (simp add: emitted_nonempty_text)
  then have "r \<in> set (filter (\<lambda>r'. run_size r' = run_size r) (emitted (page_chars pg)))"
    by simp
  then have "strip (run_text r) \<in> set (bucket (page_chars pg) (run_size r))"
    unfolding bucket_def set_map by (rule imageI)
  moreover from t have "strip (run_text r) = []" by (simp add: strip_all_space)
  ultimately have m: "[] \<in> set (bucket (page_chars pg) (run_size r))" by simp
  then have ne: "bucket (page_chars pg) (run_size r) \<noteq> []" by auto
  have "map_of (words_with_font_sizes (page_result fmt i pg)) (''Size: '' @ fmt (run_size r))
      = Some (bucket (page_chars pg) (run_size r))"
    using bucket_lookup[OF inj, of i pg "run_size r"] ne by simp
  with m show "\<exists>ws. map_of (words_with_font_sizes (page_result fmt i pg))
                  (''Size: '' @ fmt (run_size r)) = Some ws \<and> [] \<in> set ws"
    by blast
qed

theorem words_are_stripped_witness:
  "inj (\<lambda>s :: string. s) \<and>
   run_text [sample_char '' '' ''12''] = '' '' \<and>
   (\<exists>ws. map_of (words_with_font_sizes (page_result (\<lambda>s. s) 0 page_blank)) ''Size: 12'' = Some ws \<and>
      [] \<in> set ws) \<and>
   (''Size: 12'', [''a'']) \<in> set (words_with_font_sizes (page_result (\<lambda>s. s) 0 page_mixed)) \<and>
   strip ''a'' = ''a'' \<and> \<not> isspace (hd ''a'') \<and> \<not> isspace (last ''a'')"
proof -
  have i: "inj (\<lambda>s :: string. s)" by simp
  let ?r = "[sample_char '' '' ''12'']"
  have r: "?r \<in> set (runs (page_chars page_blank))"
    by (simp add: page_blank_def)
  have t: "run_text ?r = '' ''" by (simp add: run_text_def sample_char_def)
  have sp: "run_text ?r \<noteq> [] \<and> (\<forall>c \<in> set (run_text ?r). isspace c)"
    by (simp add: t isspace_def)
  have sz: "run_size ?r = ''12''" by (simp add: run_size_def sample_char_def)
  note b = words_are_stripped[of "\<lambda>s. s" 0 page_blank, THEN conjunct2, rule_format, OF i r sp]
  from b have a: "\<exists>ws. map_of (words_with_font_sizes (page_result (\<lambda>s. s) 0 page_blank))
                  ''Size: 12'' = Some ws \<and> [] \<in> set ws"
    by (simp add: sz)
  have m: "(''Size: 12'', [''a'']) \<in> set (words_with_font_sizes (page_result (\<lambda>s. s) 0 page_mixed))"
    by (simp add: wwfs_page_mixed)
  have w: "''a'' \<in> set (snd (''Size: 12'', [''a'']))" by simp
  note c = words_are_stripped[of "\<lambda>s. s" 0 page_mixed, THEN conjunct1, rule_format, OF m w]
  from c have "strip ''a'' = ''a''" "\<not> isspace (hd ''a'')" "\<not> isspace (last ''a'')"
    by simp_all
  with a i t m show ?thesis by simp
qed

end
